theory Spec2Isabelle
  imports Main "HOL-Library.Word"
begin

unbundle bit_operations_syntax

section \<open>Data model\<close>

text \<open>
  A Python \<open>str\<close> is a sequence of Unicode code points; it is modelled as a list of
  natural numbers, one per code point.  A \<open>bytes\<close> object is a list of 8-bit words.
  Python integers are unbounded: they are \<open>int\<close>.
\<close>

type_synonym pychar = nat
type_synonym pystr = "nat list"
type_synonym byte = "8 word"

datatype error = ValueError | SystemExit | CollaboratorError | UnicodeEncodeError

text \<open>
  \<open>chr(i)\<close> returns the one-character string of code point \<open>i\<close> and raises
  \<open>ValueError\<close> outside \<open>range(0x110000)\<close>.
\<close>

definition pychr :: "int \<Rightarrow> error + pystr" where
  "pychr i = (if 0 \<le> i \<and> i < 0x110000 then Inr [nat i] else Inl ValueError)"

text \<open>
  \<open>chr\<close> where the argument is known to lie in \<open>range(0x110000)\<close>, as in the encoder
  (lemma \<open>pychr_sextet\<close> below shows that \<open>chr\<close> cannot raise there).
\<close>

definition chr_in_range :: "int \<Rightarrow> pystr" where
  "chr_in_range i = [nat i]"

definition ord :: "pychar \<Rightarrow> int" where
  "ord c = int c"

section \<open>The codec: \<open>ass_uuencode\<close> (ass-drawing-subsetter.py)\<close>

text \<open>
  The body of the \<open>for\<close> loop of \<open>ass_uuencode\<close> on one slice \<open>data[i:i+3]\<close>:
  the slice is padded with zero bytes, packed into \<open>v\<close>, four characters are produced and
  the last one or two are overwritten by the empty string according to \<open>padding\<close>.
  The result is the list \<open>chars\<close> that the loop appends to \<open>res\<close>.
\<close>

definition uu_chars :: "byte list \<Rightarrow> pystr list" where
  "uu_chars chunk0 =
     (let padding = 3 - length chunk0;
          chunk = (if padding > 0 then chunk0 @ replicate padding 0 else chunk0);
          v = (push_bit 16 (uint (chunk ! 0)) OR push_bit 8 (uint (chunk ! 1))) OR uint (chunk ! 2);
          chars = [chr_in_range (((drop_bit 18 v) AND 0x3f) + 33),
                   chr_in_range (((drop_bit 12 v) AND 0x3f) + 33),
                   chr_in_range (((drop_bit 6 v) AND 0x3f) + 33),
                   chr_in_range ((v AND 0x3f) + 33)]
      in if padding = 1 then chars[3 := []]
         else if padding = 2 then (chars[3 := []])[2 := []]
         else chars)"

text \<open>The loop \<open>for i in range(0, len(data), 3)\<close> with its accumulator \<open>res\<close>.\<close>

function enc_loop :: "byte list \<Rightarrow> nat \<Rightarrow> pystr list \<Rightarrow> pystr list" where
  "enc_loop data i res =
     (if i < length data
      then enc_loop data (i + 3) (res @ uu_chars (take 3 (drop i data)))
      else res)"
  by pat_completeness auto
termination
  by (relation "measure (\<lambda>(data, i, res). length data - i)") auto

declare enc_loop.simps [simp del]

text \<open>\<open>"".join(res)\<close> is the concatenation of the pieces.\<close>

definition ass_uuencode :: "byte list \<Rightarrow> pystr" where
  "ass_uuencode data = concat (enc_loop data 0 [])"

section \<open>The codec: \<open>ass_uudecode\<close> (ass-font-extractor.py)\<close>

text \<open>
  \<open>bytearray.append(x)\<close> for an \<open>x\<close> that has been masked with \<open>0xFF\<close>, hence lies in
  \<open>range(256)\<close>.
\<close>

definition byte_of :: "int \<Rightarrow> byte" where
  "byte_of x = word_of_int x"

text \<open>
  The loop \<open>for i in range(0, len(data), 4)\<close> with the output buffer \<open>out\<close>; the
  \<open>break\<close> leaves the loop with the buffer as it is.
\<close>

function dec_loop :: "int list \<Rightarrow> nat \<Rightarrow> byte list \<Rightarrow> byte list" where
  "dec_loop data i out =
     (if i < length data
      then (let c = take 4 (drop i data)
            in if length c < 2 then out
               else (let p = c @ replicate (4 - length c) 0;
                         v = ((push_bit 18 (p ! 0) OR push_bit 12 (p ! 1)) OR push_bit 6 (p ! 2)) OR (p ! 3);
                         out1 = out @ [byte_of ((drop_bit 16 v) AND 0xFF)];
                         out2 = (if length c \<ge> 3 then out1 @ [byte_of ((drop_bit 8 v) AND 0xFF)] else out1);
                         out3 = (if length c \<ge> 4 then out2 @ [byte_of (v AND 0xFF)] else out2)
                     in dec_loop data (i + 4) out3))
      else out)"
  by pat_completeness auto
termination
  by (relation "measure (\<lambda>(data, i, out). length data - i)") auto

declare dec_loop.simps [simp del]

text \<open>The list comprehension \<open>[ord(c) - 33 for c in encoded_str if 33 <= ord(c) <= 96]\<close>.\<close>

definition uu_values :: "pystr \<Rightarrow> int list" where
  "uu_values encoded_str = map (\<lambda>c. ord c - 33) (filter (\<lambda>c. 33 \<le> ord c \<and> ord c \<le> 96) encoded_str)"

definition ass_uudecode :: "pystr \<Rightarrow> byte list" where
  "ass_uudecode encoded_str = dec_loop (uu_values encoded_str) 0 []"

section \<open>Regular expressions of the \<open>re\<close> module\<close>

text \<open>
  The three patterns of ass-drawing-subsetter.py are sequences of single-character items,
  some of them under a star, with unnested groups:
  \<^item> \<^verbatim>\<open>(\{[^}]*?\\p[1-9][^}]*\})(.*?)(\{\\p0\})\<close> with \<open>re.DOTALL | re.IGNORECASE\<close>,
  \<^item> \<^verbatim>\<open>\\p[1-9]\<close> with \<open>re.I\<close>,
  \<^item> \<^verbatim>\<open>\n\[Fonts\].*\<close> with \<open>re.DOTALL\<close>.

  A character class is one of: a literal character, a letter under \<open>IGNORECASE\<close> (its
  lower-case and upper-case code points; the only letter in the patterns is \<open>p\<close>, which
  has no other case variant in Unicode), a negated literal \<open>[^c]\<close>, a range \<open>[a-b]\<close>,
  and the dot under \<open>DOTALL\<close>.
\<close>

datatype cls = Ch pychar | ChIC pychar pychar | NotCh pychar | Range pychar pychar | AnyCh

fun cls_match :: "cls \<Rightarrow> pychar \<Rightarrow> bool" where
  "cls_match (Ch c) x = (x = c)"
| "cls_match (ChIC l u) x = (x = l \<or> x = u)"
| "cls_match (NotCh c) x = (x \<noteq> c)"
| "cls_match (Range lo hi) x = (lo \<le> x \<and> x \<le> hi)"
| "cls_match AnyCh x = True"

text \<open>
  A pattern is a list of items: one character of a class, a lazy star \<open>k*?\<close>, a greedy
  star \<open>k*\<close>, and the opening and closing parentheses of a group.
\<close>

datatype atom = Lit cls | Lazy cls | Greedy cls | Open | Close

type_synonym spans = "(nat \<times> nat) list"

text \<open>
  The backtracking matcher.  \<open>bt pat s pos ops caps\<close> matches the pattern \<open>pat\<close> against
  the text \<open>s\<close> that starts at offset \<open>pos\<close> of the match; \<open>ops\<close> is the stack of the
  offsets of the groups that are open and \<open>caps\<close> the spans of the groups closed so far.
  The result is the end offset of the first match in the priority order of \<open>re\<close>, with
  the spans of its groups: a lazy star first tries the rest of the pattern and takes one
  more character only when that fails; a greedy star first takes one more character and
  tries the rest of the pattern only when that fails.
\<close>

fun bt :: "atom list \<Rightarrow> pystr \<Rightarrow> nat \<Rightarrow> nat list \<Rightarrow> spans \<Rightarrow> (nat \<times> spans) option" where
  "bt [] s pos ops caps = Some (pos, caps)"
| "bt (Lit k # r) [] pos ops caps = None"
| "bt (Lit k # r) (c # s) pos ops caps =
     (if cls_match k c then bt r s (Suc pos) ops caps else None)"
| "bt (Lazy k # r) s pos ops caps =
     (case bt r s pos ops caps of
        Some m \<Rightarrow> Some m
      | None \<Rightarrow> (case s of
                  [] \<Rightarrow> None
                | c # s' \<Rightarrow> if cls_match k c then bt (Lazy k # r) s' (Suc pos) ops caps else None))"
| "bt (Greedy k # r) [] pos ops caps = bt r [] pos ops caps"
| "bt (Greedy k # r) (c # s) pos ops caps =
     (if cls_match k c
      then (case bt (Greedy k # r) s (Suc pos) ops caps of
              Some m \<Rightarrow> Some m
            | None \<Rightarrow> bt r (c # s) pos ops caps)
      else bt r (c # s) pos ops caps)"
| "bt (Open # r) s pos ops caps = bt r s pos (pos # ops) caps"
| "bt (Close # r) s pos [] caps = None"
| "bt (Close # r) s pos (st # ops) caps = bt r s pos ops (caps @ [(st, pos)])"

text \<open>
  A match object: the text of group 0 (the whole match) and the texts of the groups
  1, 2, ... in order.  \<open>re_match pat s\<close> is a match that starts at the first character of
  \<open>s\<close>, with the number of characters it covers.
\<close>

type_synonym rmatch = "pystr \<times> pystr list"

definition re_match :: "atom list \<Rightarrow> pystr \<Rightarrow> (nat \<times> rmatch) option" where
  "re_match pat s =
     (case bt pat s 0 [] [] of
        None \<Rightarrow> None
      | Some (e, caps) \<Rightarrow> Some (e, (take e s, map (\<lambda>(a, b). take (b - a) (drop a s)) caps)))"

text \<open>
  \<open>m.group(k)\<close>.  The patterns have a fixed number of groups, and the program only asks
  for groups that exist (lemma \<open>tag_match_groups\<close>: a match of the drawing pattern has
  exactly three); \<open>re\<close> raises \<open>IndexError\<close> for any other \<open>k\<close>, a case that the
  model maps to the empty string.
\<close>

fun mgroup :: "rmatch \<Rightarrow> nat \<Rightarrow> pystr" where
  "mgroup (g0, gs) k = (if k = 0 then g0 else if k \<le> length gs then gs ! (k - 1) else [])"

text \<open>
  \<open>re.findall\<close> and \<open>re.sub\<close> scan the text from left to right for matches that do not
  overlap: where the pattern matches, the match is taken and the scan goes on behind it;
  where it does not, the scan moves one character on (and \<open>re.sub\<close> copies that
  character).  \<open>re.findall\<close> returns, for a pattern with several groups, the tuple of the
  groups of each match; the model keeps the whole match object.

  Each of the three patterns begins with a literal character, so none of them matches the
  empty string.  The branch for an empty match is there to make the functions total; it
  records the match and moves one character on.
\<close>

function re_findall :: "atom list \<Rightarrow> pystr \<Rightarrow> rmatch list" where
  "re_findall pat s =
     (case re_match pat s of
        None \<Rightarrow> (case s of [] \<Rightarrow> [] | c # s' \<Rightarrow> re_findall pat s')
      | Some (e, m) \<Rightarrow>
          if e = 0 \<or> s = [] then m # (case s of [] \<Rightarrow> [] | c # s' \<Rightarrow> re_findall pat s')
          else m # re_findall pat (drop e s))"
  by pat_completeness auto
termination
  by (relation "measure (\<lambda>(pat, s). length s)") auto

declare re_findall.simps [simp del]

function re_sub :: "atom list \<Rightarrow> (rmatch \<Rightarrow> pystr) \<Rightarrow> pystr \<Rightarrow> pystr" where
  "re_sub pat repl s =
     (case re_match pat s of
        None \<Rightarrow> (case s of [] \<Rightarrow> [] | c # s' \<Rightarrow> c # re_sub pat repl s')
      | Some (e, m) \<Rightarrow>
          if e = 0 \<or> s = [] then repl m @ (case s of [] \<Rightarrow> [] | c # s' \<Rightarrow> c # re_sub pat repl s')
          else repl m @ re_sub pat repl (drop e s))"
  by pat_completeness auto
termination
  by (relation "measure (\<lambda>(pat, repl, s). length s)") auto

declare re_sub.simps [simp del]

text \<open>
  The drawing pattern \<^verbatim>\<open>(\{[^}]*?\\p[1-9][^}]*\})(.*?)(\{\\p0\})\<close>.  Code points:
  \<open>{\<close> is 123, \<open>}\<close> is 125, the backslash is 92, \<open>p\<close> is 112 and \<open>P\<close> is 80,
  \<open>0\<close> is 48, \<open>1\<close> to \<open>9\<close> are 49 to 57.
\<close>

definition tag_pattern :: "atom list" where
  "tag_pattern =
     [Open, Lit (Ch 123), Lazy (NotCh 125), Lit (Ch 92), Lit (ChIC 112 80), Lit (Range 49 57),
            Greedy (NotCh 125), Lit (Ch 125), Close,
      Open, Lazy AnyCh, Close,
      Open, Lit (Ch 123), Lit (Ch 92), Lit (ChIC 112 80), Lit (Ch 48), Lit (Ch 125), Close]"

text \<open>The pattern \<^verbatim>\<open>\\p[1-9]\<close> with \<open>re.I\<close>.\<close>

definition p19_pattern :: "atom list" where
  "p19_pattern = [Lit (Ch 92), Lit (ChIC 112 80), Lit (Range 49 57)]"

text \<open>
  The pattern \<^verbatim>\<open>\n\[Fonts\].*\<close> with \<open>re.DOTALL\<close> (no \<open>IGNORECASE\<close>): a line feed
  (10), then \<open>[Fonts]\<close>, then everything up to the end of the text.
\<close>

definition fonts_pattern :: "atom list" where
  "fonts_pattern =
     [Lit (Ch 10), Lit (Ch 91), Lit (Ch 70), Lit (Ch 111), Lit (Ch 110), Lit (Ch 116), Lit (Ch 115),
      Lit (Ch 93), Greedy AnyCh]"

section \<open>String methods\<close>

text \<open>
  \<open>str.isspace\<close> on one character: the whitespace of \<open>str.split()\<close> and \<open>str.strip()\<close>
  without arguments (the code points that CPython's \<open>Py_UNICODE_ISSPACE\<close> accepts).
\<close>

definition py_isspace :: "pychar \<Rightarrow> bool" where
  "py_isspace c =
     ((9 \<le> c \<and> c \<le> 13) \<or> (28 \<le> c \<and> c \<le> 32) \<or> c = 133 \<or> c = 160 \<or> c = 5760
      \<or> (8192 \<le> c \<and> c \<le> 8202) \<or> c = 8232 \<or> c = 8233 \<or> c = 8239 \<or> c = 8287 \<or> c = 12288)"

text \<open>
  \<open>s.split()\<close>: skip whitespace, take the characters up to the next whitespace as a
  word, and go on behind it; no empty words.
\<close>

function py_split :: "pystr \<Rightarrow> pystr list" where
  "py_split s =
     (let s1 = dropWhile py_isspace s
      in if s1 = [] then []
         else takeWhile (\<lambda>c. \<not> py_isspace c) s1 # py_split (dropWhile (\<lambda>c. \<not> py_isspace c) s1))"
  by pat_completeness auto
termination
proof (relation "measure length")
  show "wf (measure length)" by simp
next
  fix s s1 :: pystr
  assume s1: "s1 = dropWhile py_isspace s" and ne: "s1 \<noteq> []"
  obtain c t where ct: "s1 = c # t"
    using ne by (cases s1) auto
  have "dropWhile py_isspace s \<noteq> []"
    using s1 ne by simp
  then have "\<not> py_isspace (hd (dropWhile py_isspace s))"
    by (rule hd_dropWhile)
  then have "\<not> py_isspace c"
    unfolding s1[symmetric] ct by simp
  then have "length (dropWhile (\<lambda>c. \<not> py_isspace c) s1) \<le> length t"
    using ct by (simp add: length_dropWhile_le)
  moreover have "length s1 \<le> length s"
    using s1 by (simp add: length_dropWhile_le)
  ultimately show "(dropWhile (\<lambda>c. \<not> py_isspace c) s1, s) \<in> measure length"
    using ct by simp
qed

declare py_split.simps [simp del]

text \<open>\<open>sep.join(xs)\<close>.\<close>

fun py_join :: "pystr \<Rightarrow> pystr list \<Rightarrow> pystr" where
  "py_join sep [] = []"
| "py_join sep [x] = x"
| "py_join sep (x # y # ys) = x @ sep @ py_join sep (y # ys)"

text \<open>\<open>s.strip()\<close>: whitespace removed at both ends.\<close>

definition py_strip :: "pystr \<Rightarrow> pystr" where
  "py_strip s = rev (dropWhile py_isspace (rev (dropWhile py_isspace s)))"

text \<open>
  The expression \<^verbatim>\<open>" ".join(drawing_data.split()).strip()\<close>, which both
  \<open>load_and_extract\<close> and \<open>replace_callback\<close> bind to \<open>clean_d\<close>.
\<close>

definition clean_d :: "pystr \<Rightarrow> pystr" where
  "clean_d drawing_data = py_strip (py_join [32] (py_split drawing_data))"

section \<open>The class \<open>ASSDrawingSubsetter\<close>\<close>

text \<open>
  A \<open>dict\<close> from strings to strings keeps its keys in insertion order: an association
  list.  \<open>d.get(k)\<close> is \<open>None\<close> for a key that is absent; \<open>d[k] = v\<close> replaces the value of
  a key that is present and appends a key that is not.
\<close>

type_synonym pydict = "(pystr \<times> pystr) list"

definition dict_get :: "pydict \<Rightarrow> pystr \<Rightarrow> pystr option" where
  "dict_get d k = map_of d k"

fun dict_set :: "pydict \<Rightarrow> pystr \<Rightarrow> pystr \<Rightarrow> pydict" where
  "dict_set [] k v = [(k, v)]"
| "dict_set ((k', v') # d) k v = (if k' = k then (k, v) # d else (k', v') # dict_set d k v)"

text \<open>The fields that \<open>__init__\<close> sets, apart from the path of the input file.\<close>

record subsetter =
  drawing_to_char :: pydict
  drawings :: "pystr list"
  content :: pystr

definition init :: subsetter where
  "init = \<lparr>drawing_to_char = [], drawings = [], content = []\<rparr>"

text \<open>\<open>FONT_NAME = "ASSDrawSubset"\<close> and \<open>START_CHAR = 'a'\<close>.\<close>

definition FONT_NAME :: pystr where
  "FONT_NAME = [65, 83, 83, 68, 114, 97, 119, 83, 117, 98, 115, 101, 116]"

definition START_CHAR :: pychar where
  "START_CHAR = 97"

text \<open>
  The loop of \<open>load_and_extract\<close> over the matches, with the local dictionary \<open>seen\<close>
  and the list \<open>self.drawings\<close>.  \<open>drawing_data\<close> is the second group of the match.
  \<open>chr\<close> raises \<open>ValueError\<close> when its argument leaves \<open>range(0x110000)\<close>; nothing
  catches it, so the loop, and the program, end there.
\<close>

fun extract_loop :: "rmatch list \<Rightarrow> pydict \<Rightarrow> pystr list \<Rightarrow> error + (pydict \<times> pystr list)" where
  "extract_loop [] seen ds = Inr (seen, ds)"
| "extract_loop (m # ms) seen ds =
     (let drawing_data = mgroup m 2;
          cd = clean_d drawing_data
      in if cd \<noteq> [] \<and> dict_get seen cd = None
         then (case pychr (ord START_CHAR + int (length seen)) of
                 Inl e \<Rightarrow> Inl e
               | Inr char \<Rightarrow> extract_loop ms (dict_set seen cd char) (ds @ [cd]))
         else extract_loop ms seen ds)"

text \<open>
  \<open>load_and_extract\<close>.  The file is \<open>None\<close> when no file exists at the input path (the
  method then calls \<open>sys.exit(1)\<close>) and its text otherwise.
\<close>

definition load_and_extract :: "subsetter \<Rightarrow> pystr option \<Rightarrow> error + subsetter" where
  "load_and_extract self file =
     (case file of
        None \<Rightarrow> Inl SystemExit
      | Some text \<Rightarrow>
          (let matches = re_findall tag_pattern text
           in case extract_loop matches [] (drawings self) of
                Inl e \<Rightarrow> Inl e
              | Inr (seen, ds) \<Rightarrow> Inr (self\<lparr>content := text, drawings := ds, drawing_to_char := seen\<rparr>)))"

text \<open>
  The replacement template \<^verbatim>\<open>r'\\fn%s\\p0' % FONT_NAME\<close>: \<open>re.sub\<close> reads each
  doubled backslash of the template as one backslash, so every match is replaced by
  \<^verbatim>\<open>\fnASSDrawSubset\p0\<close>.
\<close>

definition directive_repl :: pystr where
  "directive_repl = [92, 102, 110] @ FONT_NAME @ [92, 112, 48]"

text \<open>
  \<open>replace_callback\<close>, the function that \<open>rewrite_ass\<close> hands to \<open>re.sub\<close>.  The test
  \<open>if char:\<close> holds for a string that is not empty and fails for \<open>None\<close>.
\<close>

definition replace_callback :: "subsetter \<Rightarrow> rmatch \<Rightarrow> pystr" where
  "replace_callback self m =
     (let start_tag = mgroup m 1;
          drawing_data = mgroup m 2;
          cd = clean_d drawing_data
      in case dict_get (drawing_to_char self) cd of
           Some char \<Rightarrow>
             if char \<noteq> []
             then (let new_start_tag = re_sub p19_pattern (\<lambda>_. directive_repl) start_tag
                   in new_start_tag @ char)
             else mgroup m 0
         | None \<Rightarrow> mgroup m 0)"

text \<open>
  The loop \<open>for i in range(0, len(encoded), 80)\<close> that appends the lines of the encoded
  font to \<open>font_block\<close>.
\<close>

function wrap_loop :: "pystr \<Rightarrow> nat \<Rightarrow> pystr \<Rightarrow> pystr" where
  "wrap_loop encoded i font_block =
     (if i < length encoded
      then wrap_loop encoded (i + 80) (font_block @ take 80 (drop i encoded) @ [10])
      else font_block)"
  by pat_completeness auto
termination
  by (relation "measure (\<lambda>(encoded, i, font_block). length encoded - i)") auto

declare wrap_loop.simps [simp del]

text \<open>The string \<^verbatim>\<open>"\n\n[Fonts]\nfontname: ASSDrawSubset_0.ttf\n"\<close>.\<close>

definition font_header :: pystr where
  "font_header =
     [10, 10, 91, 70, 111, 110, 116, 115, 93, 10, 102, 111, 110, 116, 110, 97, 109, 101, 58, 32]
     @ FONT_NAME @ [95, 48, 46, 116, 116, 102, 10]"

definition rewrite_ass :: "subsetter \<Rightarrow> byte list \<Rightarrow> pystr" where
  "rewrite_ass self ttf_data =
     (let final_text = re_sub tag_pattern (replace_callback self) (content self);
          final_text' = py_strip (re_sub fonts_pattern (\<lambda>_. []) final_text);
          encoded = ass_uuencode ttf_data;
          font_block = wrap_loop encoded 0 font_header
      in final_text' @ font_block)"

text \<open>
  The end of \<open>run\<close>, source lines 211 and 212:
  \<^verbatim>\<open>with open(output_path, 'w', encoding='utf-8-sig') as f: f.write(final_ass)\<close>.
  Opening the file creates it, or empties it.  \<open>f.write\<close> encodes the whole text first:
  UTF-8 has an encoding for every code point of a \<open>str\<close> except the surrogates
  \<open>U+D800\<close> to \<open>U+DFFF\<close>, and raises \<open>UnicodeEncodeError\<close> for a text that contains one,
  before anything reaches the file.  The output path is taken to be one that can be opened
  for writing.

  The outcome of a run: the exception that ended it, if any, and the output file, which is
  \<open>None\<close> when the run never opened it and its text otherwise (the empty text when the
  write failed).
\<close>

record outcome =
  raised :: "error option"
  output_file :: "pystr option"

definition encodable :: "pychar \<Rightarrow> bool" where
  "encodable c = (c < 0xD800 \<or> 0xDFFF < c)"

definition write_file :: "pystr \<Rightarrow> outcome" where
  "write_file final_ass =
     (if list_all encodable final_ass
      then \<lparr>raised = None, output_file = Some final_ass\<rparr>
      else \<lparr>raised = Some UnicodeEncodeError, output_file = Some []\<rparr>)"

text \<open>
  \<open>run\<close>, on a fresh object.  \<open>create_subset_ttf\<close> builds the font with FontForge and
  FontTools; it is a parameter of the model, a function from the dictionary
  \<open>drawing_to_char\<close> to the bytes of the font or to an error.  An exception of
  \<open>load_and_extract\<close> or of \<open>create_subset_ttf\<close> ends the run before the output file is
  opened; so does the \<open>return\<close> when no drawing was found.
\<close>

definition run :: "(pydict \<Rightarrow> error + byte list) \<Rightarrow> pystr option \<Rightarrow> outcome" where
  "run create_subset_ttf file =
     (case load_and_extract init file of
        Inl e \<Rightarrow> \<lparr>raised = Some e, output_file = None\<rparr>
      | Inr self \<Rightarrow>
          if drawings self = [] then \<lparr>raised = None, output_file = None\<rparr>
          else (case create_subset_ttf (drawing_to_char self) of
                  Inl e \<Rightarrow> \<lparr>raised = Some e, output_file = None\<rparr>
                | Inr ttf_data \<Rightarrow> write_file (rewrite_ass self ttf_data)))"

section \<open>The codec as the specification words it\<close>

text \<open>
  The following definitions follow the specification's description of the codec, not the
  code: groups are taken by pattern matching, a short final group is padded with zero
  bytes, and the number of symbols (bytes) kept for a short group is written out case by
  case.  The theorems below compare them with \<open>ass_uuencode\<close> and \<open>ass_uudecode\<close>.
\<close>

text \<open>Three bytes packed into a 24-bit value, byte0 in bits 16--23.\<close>

definition pack24 :: "byte \<Rightarrow> byte \<Rightarrow> byte \<Rightarrow> int" where
  "pack24 a b c = (push_bit 16 (uint a) OR push_bit 8 (uint b)) OR uint c"

text \<open>The symbol \<open>chr(((v >> s) & 0x3f) + 33)\<close>, as a code point.\<close>

definition uu_symbol :: "int \<Rightarrow> nat \<Rightarrow> pychar" where
  "uu_symbol v s = nat (((drop_bit s v) AND 0x3f) + 33)"

fun spec_encode :: "byte list \<Rightarrow> pystr" where
  "spec_encode (a # b # c # rest) = map (uu_symbol (pack24 a b c)) [18, 12, 6, 0] @ spec_encode rest"
| "spec_encode [a, b] = map (uu_symbol (pack24 a b 0)) [18, 12, 6]"
| "spec_encode [a] = map (uu_symbol (pack24 a 0 0)) [18, 12]"
| "spec_encode [] = []"

text \<open>Four 6-bit values shifted into positions 18, 12, 6, 0.\<close>

definition unpack24 :: "int \<Rightarrow> int \<Rightarrow> int \<Rightarrow> int \<Rightarrow> int" where
  "unpack24 p0 p1 p2 p3 = ((push_bit 18 p0 OR push_bit 12 p1) OR push_bit 6 p2) OR p3"

text \<open>The byte \<open>(v >> s) & 0xFF\<close>.\<close>

definition byte_at :: "int \<Rightarrow> nat \<Rightarrow> byte" where
  "byte_at v s = word_of_int ((drop_bit s v) AND 0xFF)"

fun spec_decode :: "int list \<Rightarrow> byte list" where
  "spec_decode (a # b # c # d # rest) = map (byte_at (unpack24 a b c d)) [16, 8, 0] @ spec_decode rest"
| "spec_decode [a, b, c] = map (byte_at (unpack24 a b c 0)) [16, 8]"
| "spec_decode [a, b] = map (byte_at (unpack24 a b 0 0)) [16]"
| "spec_decode [a] = []"
| "spec_decode [] = []"

section \<open>Proof devices\<close>

text \<open>
  The two index loops, restated as recursions on the part of the input that is still to be
  processed.  They are used in proofs only; lemmas \<open>enc_loop_groups\<close> and
  \<open>dec_loop_groups\<close> connect them with the loops.
\<close>

function enc_groups :: "byte list \<Rightarrow> pystr list" where
  "enc_groups xs = (if xs = [] then [] else uu_chars (take 3 xs) @ enc_groups (drop 3 xs))"
  by pat_completeness auto
termination
  by (relation "measure length") auto

declare enc_groups.simps [simp del]

function dec_groups :: "int list \<Rightarrow> byte list" where
  "dec_groups xs =
     (if xs = [] then []
      else (let c = take 4 xs
            in if length c < 2 then []
               else (let p = c @ replicate (4 - length c) 0;
                         v = ((push_bit 18 (p ! 0) OR push_bit 12 (p ! 1)) OR push_bit 6 (p ! 2)) OR (p ! 3)
                     in [byte_of ((drop_bit 16 v) AND 0xFF)]
                        @ (if length c \<ge> 3 then [byte_of ((drop_bit 8 v) AND 0xFF)] else [])
                        @ (if length c \<ge> 4 then [byte_of (v AND 0xFF)] else [])
                        @ dec_groups (drop 4 xs))))"
  by pat_completeness auto
termination
  by (relation "measure length") auto

declare dec_groups.simps [simp del]

text \<open>The 6-bit value \<open>(v >> s) & 0x3f\<close>.\<close>

definition sextet :: "int \<Rightarrow> nat \<Rightarrow> int" where
  "sextet v s = (drop_bit s v) AND 0x3f"

section \<open>The pipeline as the specification words it\<close>

text \<open>
  The definitions of this section are not translations of code.  They give names to the
  notions of the specification (canonical shape, first-occurrence order, the text between
  blocks, the resource section) so that the theorems can compare them with the program.
\<close>

text \<open>The canonical shape of a matched block: its payload, normalised.\<close>

definition payload :: "rmatch \<Rightarrow> pystr" where
  "payload m = clean_d (mgroup m 2)"

text \<open>The canonical shapes of all blocks that the scan of \<open>load_and_extract\<close> matches, in order.\<close>

definition canonical_payloads :: "pystr \<Rightarrow> pystr list" where
  "canonical_payloads text = map payload (re_findall tag_pattern text)"

text \<open>The distinct values of a list, in the order of their first occurrence.\<close>

fun first_occ :: "'a list \<Rightarrow> 'a list" where
  "first_occ [] = []"
| "first_occ (x # xs) = x # first_occ (removeAll x xs)"

text \<open>The distinct canonical shapes of a document that are not the empty string.\<close>

definition shapes :: "pystr \<Rightarrow> pystr list" where
  "shapes text = first_occ (filter (\<lambda>x. x \<noteq> []) (canonical_payloads text))"

text \<open>
  The character of the \<open>n\<close>-th shape, \<open>chr(ord('a') + n)\<close>, and the number of code
  points from \<open>'a'\<close> up to the last one that \<open>chr\<close> accepts: \<open>0x110000 - 97\<close>.
\<close>

definition assigned :: "nat \<Rightarrow> pystr" where
  "assigned n = [START_CHAR + n]"

definition capacity :: nat where
  "capacity = 1114015"

text \<open>A token: a string that is not empty and has no whitespace.\<close>

definition word_ok :: "pystr \<Rightarrow> bool" where
  "word_ok w = (w \<noteq> [] \<and> list_all (\<lambda>c. \<not> py_isspace c) w)"

text \<open>
  A text cut into the matches of a pattern and the gaps between them: \<open>re_gaps pat s\<close> is
  the list of the pieces of \<open>s\<close> before, between and after the matches that the scan
  finds, and \<open>weave\<close> puts gaps and replacements together again.
\<close>

fun weave :: "pystr list \<Rightarrow> pystr list \<Rightarrow> pystr" where
  "weave (g # gs) (x # xs) = g @ x @ weave gs xs"
| "weave gs [] = concat gs"
| "weave [] xs = concat xs"

fun cons_hd :: "pychar \<Rightarrow> pystr list \<Rightarrow> pystr list" where
  "cons_hd c [] = [[c]]"
| "cons_hd c (g # gs) = (c # g) # gs"

function re_gaps :: "atom list \<Rightarrow> pystr \<Rightarrow> pystr list" where
  "re_gaps pat s =
     (case re_match pat s of
        None \<Rightarrow> (case s of [] \<Rightarrow> [[]] | c # s' \<Rightarrow> cons_hd c (re_gaps pat s'))
      | Some (e, m) \<Rightarrow>
          if e = 0 \<or> s = [] then [] # (case s of [] \<Rightarrow> [[]] | c # s' \<Rightarrow> cons_hd c (re_gaps pat s'))
          else [] # re_gaps pat (drop e s))"
  by pat_completeness auto
termination
  by (relation "measure (\<lambda>(pat, s). length s)") auto

declare re_gaps.simps [simp del]

text \<open>
  The resource section runs from the first \<^verbatim>\<open>\n[Fonts]\<close> to the end of the text;
  \<open>cut_fonts\<close> is the text before it.
\<close>

definition fonts_marker :: pystr where
  "fonts_marker = [10, 91, 70, 111, 110, 116, 115, 93]"

fun cut_fonts :: "pystr \<Rightarrow> pystr" where
  "cut_fonts [] = []"
| "cut_fonts (c # s) = (if take 8 (c # s) = fonts_marker then [] else c # cut_fonts s)"

text \<open>
  A start tag in which every drawing-mode directive (a backslash, \<open>p\<close> or \<open>P\<close>, a digit
  from 1 to 9) is replaced by \<^verbatim>\<open>\fnASSDrawSubset\p0\<close>.
\<close>

fun replace_directive :: "pystr \<Rightarrow> pystr" where
  "replace_directive (a # b # c # s) =
     (if a = 92 \<and> (b = 112 \<or> b = 80) \<and> 49 \<le> c \<and> c \<le> 57
      then directive_repl @ replace_directive s
      else a # replace_directive (b # c # s))"
| "replace_directive s = s"

text \<open>An item of a pattern that is not a parenthesis.\<close>

fun plain :: "atom \<Rightarrow> bool" where
  "plain Open = False"
| "plain Close = False"
| "plain _ = True"

section \<open>Example documents\<close>

text \<open>The tags \<^verbatim>\<open>{\p1}\<close> and \<^verbatim>\<open>{\p0}\<close>.\<close>

definition open_p1 :: pystr where
  "open_p1 = [123, 92, 112, 49, 125]"

definition close_p0 :: pystr where
  "close_p0 = [123, 92, 112, 48, 125]"

text \<open>\<^verbatim>\<open>{\p1}{\p0}{\p1}m{\p0}\<close>: a block with an empty payload, then a shape.\<close>

definition doc_empty_first :: pystr where
  "doc_empty_first = open_p1 @ close_p0 @ open_p1 @ [109] @ close_p0"

text \<open>\<^verbatim>\<open>{\p1} {\p0}\<close>: one block, its payload a single space.\<close>

definition doc_blank :: pystr where
  "doc_blank = open_p1 @ [32] @ close_p0"

text \<open>\<^verbatim>\<open>{\p1} {\p0}{\p1}{\p0}\<close>: two blocks whose payloads differ only in whitespace.\<close>

definition doc_blanks :: pystr where
  "doc_blanks = open_p1 @ [32] @ close_p0 @ open_p1 @ close_p0"

text \<open>A space, \<^verbatim>\<open>{\p1}m{\p0}\<close>, a line feed.\<close>

definition doc_lead :: pystr where
  "doc_lead = [32] @ open_p1 @ [109] @ close_p0 @ [10]"

text \<open>
  The payload \<^verbatim>\<open>m 0 0 l 100 0 100 100 0 100\<close> of the specification's scenario, and a
  document with two blocks that carry it.
\<close>

definition square :: pystr where
  "square = [109, 32, 48, 32, 48, 32, 108, 32, 49, 48, 48, 32, 48, 32, 49, 48, 48, 32, 49, 48, 48,
             32, 48, 32, 49, 48, 48]"

definition doc_twice :: pystr where
  "doc_twice = open_p1 @ square @ close_p0 @ open_p1 @ square @ close_p0"

text \<open>
  \<^verbatim>\<open>{\an7\P1}m 0{\p0}x{\p2}{\p0}{\p1}  m\n0 {\p0}{\p3}l{\p0}\<close>, where \<^verbatim>\<open>\n\<close> is a line
  feed: four blocks; the first and the third carry the same tokens, the second is empty.
\<close>

definition doc_mixed :: pystr where
  "doc_mixed =
     [123, 92, 97, 110, 55, 92, 80, 49, 125] @ [109, 32, 48] @ close_p0 @ [120]
     @ [123, 92, 112, 50, 125] @ close_p0
     @ open_p1 @ [32, 32, 109, 10, 48, 32] @ close_p0
     @ [123, 92, 112, 51, 125] @ [108] @ close_p0"

text \<open>
  The document of the blocks \<^verbatim>\<open>{\p1}m{\p0}\<close>, \<^verbatim>\<open>{\p1}mm{\p0}\<close>, ...: block \<open>n\<close> has
  \<open>n + 1\<close> letters, so the shapes of the blocks differ from one another.
\<close>

definition blk :: "nat \<Rightarrow> pystr" where
  "blk n = open_p1 @ replicate (Suc n) 109 @ close_p0"

definition many_blocks :: "nat \<Rightarrow> nat \<Rightarrow> pystr" where
  "many_blocks a k = concat (map blk [a..<a + k])"

text \<open>
  The object after \<open>load_and_extract\<close> on \<open>doc_mixed\<close> (lemma \<open>extract_doc_mixed\<close>), and
  the first three matches of the scan of \<open>doc_mixed\<close> (lemma \<open>findall_doc_mixed\<close>).
\<close>

definition reg_mixed :: subsetter where
  "reg_mixed = \<lparr>drawing_to_char = [([109, 32, 48], [97]), ([108], [98])],
                 drawings = [[109, 32, 48], [108]], content = doc_mixed\<rparr>"

definition m_first :: rmatch where
  "m_first = ([123, 92, 97, 110, 55, 92, 80, 49, 125, 109, 32, 48, 123, 92, 112, 48, 125],
              [[123, 92, 97, 110, 55, 92, 80, 49, 125], [109, 32, 48], [123, 92, 112, 48, 125]])"

definition m_second :: rmatch where
  "m_second = ([123, 92, 112, 50, 125, 123, 92, 112, 48, 125],
               [[123, 92, 112, 50, 125], [], [123, 92, 112, 48, 125]])"

definition m_third :: rmatch where
  "m_third = ([123, 92, 112, 49, 125, 32, 32, 109, 10, 48, 32, 123, 92, 112, 48, 125],
              [[123, 92, 112, 49, 125], [32, 32, 109, 10, 48, 32], [123, 92, 112, 48, 125]])"

text \<open>
  The tag \<^verbatim>\<open>{\fnASSDrawSubset\p0}\<close>, which is \<^verbatim>\<open>{\p1}\<close> after the replacement of its
  directive, and the text of the rewritten blocks \<open>a\<close>, ..., \<open>a + k - 1\<close> of
  \<open>many_blocks\<close>: each is that tag and the character of its shape.
\<close>

definition tag_repl :: pystr where
  "tag_repl = [123] @ directive_repl @ [125]"

definition replaced_blocks :: "nat \<Rightarrow> nat \<Rightarrow> pystr" where
  "replaced_blocks a k = concat (map (\<lambda>n. tag_repl @ assigned n) [a..<a + k])"

text \<open>The object after \<open>load_and_extract\<close> on \<open>many_blocks 0 k\<close> (lemma \<open>extract_many\<close>).\<close>

definition reg_many :: "nat \<Rightarrow> subsetter" where
  "reg_many k =
     \<lparr>drawing_to_char = zip (map (\<lambda>n. replicate (Suc n) 109) [0..<k]) (map assigned [0..<k]),
      drawings = map (\<lambda>n. replicate (Suc n) 109) [0..<k],
      content = many_blocks 0 k\<rparr>"

text \<open>
  \<^verbatim>\<open>{\p1}m{\p0}\n[Fonts]\n{\p1}l{\p0}\<close>, where \<^verbatim>\<open>\n\<close> is a line feed: a block, the
  beginning of a resource section, and a second block behind it; and the object after
  \<open>load_and_extract\<close> on this document (lemma \<open>extract_doc_behind\<close>).
\<close>

definition doc_behind :: pystr where
  "doc_behind = open_p1 @ [109] @ close_p0 @ fonts_marker @ [10] @ open_p1 @ [108] @ close_p0"

definition reg_behind :: subsetter where
  "reg_behind = \<lparr>drawing_to_char = [([109], [97]), ([108], [98])],
                  drawings = [[109], [108]], content = doc_behind\<rparr>"

section \<open>Codec: the loops and their groups\<close>

lemma and63: "(x::int) AND 0x3f = take_bit 6 x"
  using take_bit_eq_mask[of 6 x] by (simp add: mask_eq_exp_minus_1)

lemma and255: "(x::int) AND 0xFF = take_bit 8 x"
  using take_bit_eq_mask[of 8 x] by (simp add: mask_eq_exp_minus_1)

lemma bit_byte: "bit (a::byte) m \<Longrightarrow> m < 8"
  by (drule bit_imp_le_length) simp

lemma enc_loop_groups: "enc_loop data i res = res @ enc_groups (drop i data)"
proof (induction data i res rule: enc_loop.induct)
  case (1 data i res)
  show ?case
  proof (cases "i < length data")
    case True
    then have ne: "drop i data \<noteq> []" by simp
    have "enc_loop data i res = enc_loop data (i + 3) (res @ uu_chars (take 3 (drop i data)))"
      using True by (subst enc_loop.simps) simp
    also have "\<dots> = (res @ uu_chars (take 3 (drop i data))) @ enc_groups (drop (i + 3) data)"
      using 1 True by simp
    also have "\<dots> = res @ enc_groups (drop i data)"
      using ne by (subst (2) enc_groups.simps) (simp add: add.commute)
    finally show ?thesis .
  next
    case False
    then show ?thesis by (subst enc_loop.simps, subst enc_groups.simps) simp
  qed
qed

lemma ass_uuencode_groups: "ass_uuencode data = concat (enc_groups data)"
  by (simp add: ass_uuencode_def enc_loop_groups)

lemma uu_chars3:
  "uu_chars [a, b, c] = map (\<lambda>s. [uu_symbol (pack24 a b c) s]) [18, 12, 6, 0]"
  by (simp add: uu_chars_def pack24_def uu_symbol_def chr_in_range_def Let_def)

lemma uu_chars2:
  "uu_chars [a, b] = map (\<lambda>s. [uu_symbol (pack24 a b 0) s]) [18, 12, 6] @ [[]]"
  by (simp add: uu_chars_def pack24_def uu_symbol_def chr_in_range_def Let_def)

lemma uu_chars1:
  "uu_chars [a] = map (\<lambda>s. [uu_symbol (pack24 a 0 0) s]) [18, 12] @ [[], []]"
  by (simp add: uu_chars_def pack24_def uu_symbol_def chr_in_range_def Let_def numeral_2_eq_2)

lemma enc_nil: "ass_uuencode [] = []"
  by (simp add: ass_uuencode_groups enc_groups.simps)

lemma enc_one: "ass_uuencode [a] = map (uu_symbol (pack24 a 0 0)) [18, 12]"
  by (simp add: ass_uuencode_groups enc_groups.simps[of "[a]"] enc_groups.simps[of "[]"] uu_chars1)

lemma enc_two: "ass_uuencode [a, b] = map (uu_symbol (pack24 a b 0)) [18, 12, 6]"
  by (simp add: ass_uuencode_groups enc_groups.simps[of "[a, b]"] enc_groups.simps[of "[]"] uu_chars2)

lemma enc_three:
  "ass_uuencode (a # b # c # rest) = map (uu_symbol (pack24 a b c)) [18, 12, 6, 0] @ ass_uuencode rest"
  by (simp add: ass_uuencode_groups enc_groups.simps[of "a # b # c # rest"] uu_chars3)

lemma ass_uuencode_spec: "ass_uuencode data = spec_encode data"
  by (induction data rule: spec_encode.induct) (simp_all add: enc_nil enc_one enc_two enc_three)

lemma dec_loop_groups: "dec_loop data i out = out @ dec_groups (drop i data)"
proof (induction "length data - i" arbitrary: i out rule: less_induct)
  case less
  show ?case
  proof (cases "i < length data")
    case False
    then show ?thesis by (subst dec_loop.simps, subst dec_groups.simps) simp
  next
    case True
    then have ne: "drop i data \<noteq> []" by simp
    have IH: "dec_loop data (i + 4) out' = out' @ dec_groups (drop 4 (drop i data))" for out'
      using less[of "i + 4" out'] True by (simp add: add.commute)
    show ?thesis
      apply (subst dec_loop.simps)
      apply (subst dec_groups.simps)
      apply (simp only: IH Let_def True ne if_True if_False)
      apply (simp del: One_nat_def)
      done
  qed
qed

lemma ass_uudecode_groups: "ass_uudecode s = dec_groups (uu_values s)"
  by (simp add: ass_uudecode_def dec_loop_groups)

lemma dec_groups_nil: "dec_groups [] = []"
  by (simp add: dec_groups.simps)

lemma dec_groups_1: "dec_groups [a] = []"
  by (simp add: dec_groups.simps[of "[a]"])

lemma dec_groups_2: "dec_groups [a, b] = map (byte_at (unpack24 a b 0 0)) [16]"
  by (simp add: dec_groups.simps[of "[a, b]"] dec_groups_nil unpack24_def byte_at_def byte_of_def
      Let_def numeral_2_eq_2)

lemma dec_groups_3: "dec_groups [a, b, c] = map (byte_at (unpack24 a b c 0)) [16, 8]"
  by (simp add: dec_groups.simps[of "[a, b, c]"] dec_groups_nil unpack24_def byte_at_def byte_of_def
      Let_def)

lemma dec_groups_4:
  "dec_groups (a # b # c # d # rest) = map (byte_at (unpack24 a b c d)) [16, 8, 0] @ dec_groups rest"
  by (simp add: dec_groups.simps[of "a # b # c # d # rest"] unpack24_def byte_at_def byte_of_def Let_def)

lemma dec_groups_spec: "dec_groups vs = spec_decode vs"
  by (induction vs rule: spec_decode.induct)
     (simp_all add: dec_groups_nil dec_groups_1 dec_groups_2 dec_groups_3 dec_groups_4)

section \<open>Codec: bit-level facts\<close>

lemma sextet_range: "0 \<le> sextet v s \<and> sextet v s < 64"
  unfolding sextet_def and63
  using take_bit_int_less_exp[of 6 "drop_bit s v"] by simp

lemma uu_symbol_sextet: "uu_symbol v s = nat (sextet v s + 33)"
  by (simp add: uu_symbol_def sextet_def)

lemma uu_symbol_range: "33 \<le> uu_symbol v s \<and> uu_symbol v s \<le> 96"
  using sextet_range[of v s] unfolding uu_symbol_sextet by linarith

lemma pychr_sextet:
  "pychr (((drop_bit s v) AND 0x3f) + 33) = Inr (chr_in_range (((drop_bit s v) AND 0x3f) + 33))"
  using sextet_range[of v s] by (simp add: pychr_def chr_in_range_def sextet_def)

lemma uu_values_nil: "uu_values [] = []"
  by (simp add: uu_values_def)

lemma uu_values_symbol: "uu_values (uu_symbol v s # rest) = sextet v s # uu_values rest"
  using uu_symbol_range[of v s] sextet_range[of v s]
  by (simp add: uu_values_def ord_def uu_symbol_sextet)

lemma bit_pack24:
  "bit (pack24 a b c) n \<longleftrightarrow>
     (n < 8 \<and> bit c n) \<or> (8 \<le> n \<and> n < 16 \<and> bit b (n - 8)) \<or> (16 \<le> n \<and> n < 24 \<and> bit a (n - 16))"
  unfolding pack24_def
  apply (simp add: bit_simps)
  using bit_byte[of a "n - 16"] bit_byte[of b "n - 8"] bit_byte[of c n]
  by fastforce

lemma bit_sextet: "bit (sextet v s) n \<longleftrightarrow> n < 6 \<and> bit v (s + n)"
  unfolding sextet_def and63 by (simp add: bit_simps ac_simps)

lemma bit_unpack24:
  "bit (unpack24 p0 p1 p2 p3) n \<longleftrightarrow>
     (18 \<le> n \<and> bit p0 (n - 18)) \<or> (12 \<le> n \<and> bit p1 (n - 12)) \<or> (6 \<le> n \<and> bit p2 (n - 6)) \<or> bit p3 n"
  unfolding unpack24_def by (simp add: bit_simps)

lemma ranges24:
  "(n::nat) < 6 \<or> (6 \<le> n \<and> n < 12) \<or> (12 \<le> n \<and> n < 18) \<or> (18 \<le> n \<and> n < 24) \<or> 24 \<le> n"
  by arith

lemma unpack_pack3:
  "unpack24 (sextet (pack24 a b c) 18) (sextet (pack24 a b c) 12) (sextet (pack24 a b c) 6)
     (sextet (pack24 a b c) 0) = pack24 a b c"
proof (rule bit_eqI)
  fix n :: nat
  show "bit (unpack24 (sextet (pack24 a b c) 18) (sextet (pack24 a b c) 12) (sextet (pack24 a b c) 6)
     (sextet (pack24 a b c) 0)) n = bit (pack24 a b c) n"
    unfolding bit_unpack24 bit_sextet
    using ranges24[of n] by (elim disjE conjE) (simp_all add: bit_pack24 less_diff_conv2)
qed

lemma unpack_pack2:
  "unpack24 (sextet (pack24 a b 0) 18) (sextet (pack24 a b 0) 12) (sextet (pack24 a b 0) 6) 0
     = pack24 a b 0"
proof (rule bit_eqI)
  fix n :: nat
  show "bit (unpack24 (sextet (pack24 a b 0) 18) (sextet (pack24 a b 0) 12) (sextet (pack24 a b 0) 6) 0) n
     = bit (pack24 a b 0) n"
    unfolding bit_unpack24 bit_sextet
    using ranges24[of n] by (elim disjE conjE) (simp_all add: bit_pack24 less_diff_conv2)
qed

lemma unpack_pack1:
  "unpack24 (sextet (pack24 a 0 0) 18) (sextet (pack24 a 0 0) 12) 0 0 = pack24 a 0 0"
proof (rule bit_eqI)
  fix n :: nat
  show "bit (unpack24 (sextet (pack24 a 0 0) 18) (sextet (pack24 a 0 0) 12) 0 0) n
     = bit (pack24 a 0 0) n"
    unfolding bit_unpack24 bit_sextet
    using ranges24[of n] by (elim disjE conjE) (simp_all add: bit_pack24 less_diff_conv2)
qed

lemma byte_at_16: "byte_at (pack24 a b c) 16 = a"
  unfolding and255 byte_at_def
  by (rule bit_eqI) (simp add: bit_simps bit_pack24)

lemma byte_at_8: "byte_at (pack24 a b c) 8 = b"
  unfolding and255 byte_at_def
  by (rule bit_eqI) (simp add: bit_simps bit_pack24)

lemma byte_at_0: "byte_at (pack24 a b c) 0 = c"
  unfolding and255 byte_at_def
  by (rule bit_eqI) (simp add: bit_simps bit_pack24)

lemma spec_roundtrip: "spec_decode (uu_values (spec_encode data)) = data"
  by (induction data rule: spec_encode.induct)
     (simp_all add: uu_values_symbol uu_values_nil unpack_pack3 unpack_pack2 unpack_pack1
        byte_at_16 byte_at_8 byte_at_0)

lemma uu_values_out_of_range:
  "\<forall>c\<in>set s. c < 33 \<or> 96 < c \<Longrightarrow> uu_values s = []"
  by (induction s) (auto simp add: uu_values_def ord_def)

section \<open>Claims about the codec\<close>

text \<open>
  Claim C1 (round trip).  For every byte sequence \<open>b\<close>, of any length including zero,
  decoding the string that encoding \<open>b\<close> produces gives back exactly \<open>b\<close>.
\<close>

theorem C1_roundtrip: "ass_uudecode (ass_uuencode b) = b"
  by (simp add: ass_uudecode_groups dec_groups_spec ass_uuencode_spec spec_roundtrip)

text \<open>
  Claim C7 (encoding).  The encoder works on groups of three bytes: a full group is packed
  into a 24-bit value \<open>v\<close> and gives the four characters \<open>chr(((v >> s) & 0x3f) + 33)\<close>
  for \<open>s = 18, 12, 6, 0\<close>; a final group of one byte is padded with two zero bytes and
  keeps only the first two characters; a final group of two bytes is padded with one zero
  byte and keeps the first three.  The encoding of \<open>b"AB"\<close> has three characters (it is
  \<open>"15)"\<close>) and the empty byte sequence encodes to the empty string.
\<close>

theorem C7_encode_groups:
  "ass_uuencode (a # b # c # rest) = map (uu_symbol (pack24 a b c)) [18, 12, 6, 0] @ ass_uuencode rest
   \<and> ass_uuencode [a, b] = map (uu_symbol (pack24 a b 0)) [18, 12, 6]
   \<and> ass_uuencode [a] = map (uu_symbol (pack24 a 0 0)) [18, 12]
   \<and> ass_uuencode [] = []
   \<and> ass_uuencode data = spec_encode data
   \<and> ass_uuencode [0x41, 0x42] = [49, 53, 41]
   \<and> length (ass_uuencode [0x41, 0x42]) = 3"
proof -
  have "ass_uuencode [0x41, 0x42] = [49, 53, 41]"
    by (simp add: enc_two pack24_def uu_symbol_def)
  then show ?thesis
    by (simp add: enc_nil enc_one enc_two enc_three ass_uuencode_spec)
qed

text \<open>
  Claim C8 (decoding).  The decoder keeps the characters with code points 33 to 96, maps
  each to its code point minus 33, and works on groups of four values: four values give
  three bytes, a final group of three values gives two bytes, of two values one byte, and
  a final single value gives no byte.  The empty string, and any string of characters
  outside 33..96 only, decode to the empty byte sequence.
\<close>

theorem C8_decode_groups:
  "ass_uudecode s = spec_decode (map (\<lambda>c. int c - 33) (filter (\<lambda>c. 33 \<le> c \<and> c \<le> 96) s))
   \<and> spec_decode (p0 # p1 # p2 # p3 # rest) = map (byte_at (unpack24 p0 p1 p2 p3)) [16, 8, 0] @ spec_decode rest
   \<and> length (spec_decode [p0, p1, p2, p3]) = 3
   \<and> length (spec_decode [p0, p1, p2]) = 2
   \<and> length (spec_decode [p0, p1]) = 1
   \<and> spec_decode [p0] = []
   \<and> ass_uudecode [] = []
   \<and> ((\<forall>c\<in>set s. c < 33 \<or> 96 < c) \<longrightarrow> ass_uudecode s = [])"
proof -
  have "ass_uudecode s = spec_decode (map (\<lambda>c. int c - 33) (filter (\<lambda>c. 33 \<le> c \<and> c \<le> 96) s))"
    by (simp add: ass_uudecode_groups dec_groups_spec uu_values_def ord_def)
  moreover have "ass_uudecode [] = []"
    by (simp add: ass_uudecode_groups dec_groups_nil uu_values_nil)
  moreover have "(\<forall>c\<in>set s. c < 33 \<or> 96 < c) \<longrightarrow> ass_uudecode s = []"
    by (simp add: ass_uudecode_groups dec_groups_nil uu_values_out_of_range)
  ultimately show ?thesis by simp
qed

theorem C8_decode_groups_witness:
  "ass_uudecode [32, 10, 126, 200] = []
   \<and> ass_uudecode [49, 53, 41] = [0x41, 0x42]
   \<and> ass_uudecode [49, 32, 53] = [0x41]
   \<and> ass_uudecode [49, 53, 41, 33, 49] = [0x41, 0x42, 0]"
proof -
  have h: "\<forall>c\<in>set [32, 10, 126, 200]. c < 33 \<or> 96 < (c::nat)" by simp
  have "ass_uudecode [32, 10, 126, 200] = []"
    using C8_decode_groups [of "[32, 10, 126, 200]"] h by blast
  moreover have "ass_uudecode [49, 53, 41] = [0x41, 0x42]"
    using C8_decode_groups [of "[49, 53, 41]"] by (simp add: unpack24_def byte_at_def)
  moreover have "ass_uudecode [49, 32, 53] = [0x41]"
    using C8_decode_groups [of "[49, 32, 53]"] by (simp add: unpack24_def byte_at_def)
  moreover have "ass_uudecode [49, 53, 41, 33, 49] = [0x41, 0x42, 0]"
    using C8_decode_groups [of "[49, 53, 41, 33, 49]"] by (simp add: unpack24_def byte_at_def)
  ultimately show ?thesis by simp
qed

section \<open>Lemmas about the pipeline\<close>

subsection \<open>The registry built by the extraction loop\<close>

lemma set_first_occ: "set (first_occ xs) = set xs"
  by (induction xs rule: first_occ.induct) auto

lemma distinct_first_occ: "distinct (first_occ xs)"
  by (induction xs rule: first_occ.induct) (auto simp: set_first_occ)


lemma dict_get_None: "dict_get d k = None \<longleftrightarrow> k \<notin> set (map fst d)"
  by (simp add: dict_get_def map_of_eq_None_iff)

lemma dict_set_new: "dict_get d k = None \<Longrightarrow> dict_set d k v = d @ [(k, v)]"
  by (induction d) (auto simp: dict_get_def split: if_splits)

lemma pychr_start:
  "pychr (ord START_CHAR + int n) = (if n < capacity then Inr (assigned n) else Inl ValueError)"
  by (simp add: pychr_def ord_def START_CHAR_def capacity_def assigned_def nat_add_distrib)

lemma removeAll_filter: "removeAll p (filter P xs) = filter (\<lambda>x. P x \<and> x \<noteq> p) xs"
  by (induction xs) auto

lemma extract_loop_char:
  "extract_loop ms seen ds =
     (let new = first_occ (filter (\<lambda>x. x \<noteq> [] \<and> x \<notin> set (map fst seen)) (map payload ms))
      in if new = [] \<or> length seen + length new \<le> capacity
         then Inr (seen @ zip new (map assigned [length seen ..< length seen + length new]), ds @ new)
         else Inl ValueError)"
proof (induction ms arbitrary: seen ds)
  case Nil
  then show ?case by simp
next
  case (Cons m ms)
  let ?p = "payload m"
  show ?case
  proof (cases "?p \<noteq> [] \<and> dict_get seen ?p = None")
    case False
    then have "filter (\<lambda>x. x \<noteq> [] \<and> x \<notin> set (map fst seen)) (map payload (m # ms))
             = filter (\<lambda>x. x \<noteq> [] \<and> x \<notin> set (map fst seen)) (map payload ms)"
      by (auto simp: dict_get_None)
    moreover have "extract_loop (m # ms) seen ds = extract_loop ms seen ds"
      using False by (auto simp: payload_def Let_def)
    ultimately show ?thesis using Cons.IH[of seen ds] by simp
  next
    case True
    then have new: "?p \<noteq> []" "?p \<notin> set (map fst seen)" "dict_get seen ?p = None"
      by (auto simp: dict_get_None)
    let ?seen' = "seen @ [(?p, assigned (length seen))]"
    let ?rest = "first_occ (filter (\<lambda>x. x \<noteq> [] \<and> x \<notin> set (map fst ?seen')) (map payload ms))"
    have flt: "first_occ (filter (\<lambda>x. x \<noteq> [] \<and> x \<notin> set (map fst seen)) (map payload (m # ms)))
             = ?p # ?rest"
    proof -
      have "(\<lambda>x. (x \<noteq> [] \<and> x \<notin> set (map fst seen)) \<and> x \<noteq> ?p) = (\<lambda>x. x \<noteq> [] \<and> x \<notin> set (map fst ?seen'))"
        by auto
      then show ?thesis using new by (simp add: removeAll_filter)
    qed
    show ?thesis
    proof (cases "length seen < capacity")
      case False
      then have "extract_loop (m # ms) seen ds = Inl ValueError"
        using True by (simp add: payload_def Let_def pychr_start)
      then show ?thesis using False flt by (simp add: Let_def)
    next
      case lt: True
      have "extract_loop (m # ms) seen ds = extract_loop ms ?seen' (ds @ [?p])"
        using True lt by (simp add: payload_def Let_def pychr_start dict_set_new)
      also have "\<dots> = (if ?rest = [] \<or> length ?seen' + length ?rest \<le> capacity
         then Inr (?seen' @ zip ?rest (map assigned [length ?seen' ..< length ?seen' + length ?rest]), (ds @ [?p]) @ ?rest)
         else Inl ValueError)"
        using Cons.IH[of ?seen' "ds @ [?p]"] by (simp only: Let_def)
      also have "\<dots> = (let new = first_occ (filter (\<lambda>x. x \<noteq> [] \<and> x \<notin> set (map fst seen)) (map payload (m # ms)))
      in if new = [] \<or> length seen + length new \<le> capacity
         then Inr (seen @ zip new (map assigned [length seen ..< length seen + length new]), ds @ new)
         else Inl ValueError)"
        unfolding flt Let_def using lt
        by (auto simp add: upt_conv_Cons simp del: upt_Suc)
      finally show ?thesis .
    qed
  qed
qed

lemma load_and_extract_char:
  "load_and_extract init (Some text) =
     (if length (shapes text) \<le> capacity
      then Inr \<lparr>drawing_to_char = zip (shapes text) (map assigned [0..<length (shapes text)]),
                drawings = shapes text, content = text\<rparr>
      else Inl ValueError)"
  by (simp add: load_and_extract_def init_def extract_loop_char Let_def shapes_def canonical_payloads_def)

lemma load_and_extract_Inr:
  assumes "load_and_extract init (Some text) = Inr self"
  shows "length (shapes text) \<le> capacity"
    and "drawing_to_char self = zip (shapes text) (map assigned [0..<length (shapes text)])"
    and "drawings self = shapes text"
    and "content self = text"
  using assms by (auto simp: load_and_extract_char split: if_splits)

lemma distinct_shapes: "distinct (shapes text)"
  by (simp add: shapes_def distinct_first_occ)

lemma set_shapes: "set (shapes text) = set (canonical_payloads text) - {[]}"
  by (auto simp: shapes_def set_first_occ)

lemma dict_get_zip:
  assumes "distinct ks" "n < length ks"
  shows "dict_get (zip ks (map f [0..<length ks])) (ks ! n) = Some (f n)"
proof -
  have "map_of (zip ks (map f [0..<length ks])) (ks ! n) = Some (map f [0..<length ks] ! n)"
    using assms by (intro map_of_zip_nth) auto
  then show ?thesis using assms by (simp add: dict_get_def)
qed

lemma dict_get_zip_None:
  "k \<notin> set ks \<Longrightarrow> dict_get (zip ks (map f [0..<length ks])) k = None"
  by (auto simp: dict_get_def map_of_eq_None_iff dest: set_zip_leftD)

lemma assigned_inj: "assigned m = assigned n \<longleftrightarrow> m = n"
  by (simp add: assigned_def)

lemma registry_lookup:
  assumes "load_and_extract init (Some text) = Inr self" "n < length (shapes text)"
  shows "dict_get (drawing_to_char self) (shapes text ! n) = Some (assigned n)"
  using assms distinct_shapes[of "text"] by (simp add: load_and_extract_Inr(2) dict_get_zip)

lemma registry_miss:
  assumes "load_and_extract init (Some text) = Inr self" "k \<notin> set (shapes text)"
  shows "dict_get (drawing_to_char self) k = None"
  using assms by (simp add: load_and_extract_Inr(2) dict_get_zip_None)

lemma registry_values_distinct:
  assumes "load_and_extract init (Some text) = Inr self"
  shows "distinct (map snd (drawing_to_char self))"
  using assms by (simp add: load_and_extract_Inr(2) distinct_map inj_on_def assigned_inj)

lemma registry_keys:
  assumes "load_and_extract init (Some text) = Inr self"
  shows "map fst (drawing_to_char self) = shapes text"
  using assms by (simp add: load_and_extract_Inr(2))

lemma registry_hit:
  assumes "load_and_extract init (Some text) = Inr self"
    and "m \<in> set (re_findall tag_pattern text)"
    and "clean_d (mgroup m 2) \<noteq> []"
  shows "\<exists>n<length (shapes text). shapes text ! n = clean_d (mgroup m 2)
           \<and> dict_get (drawing_to_char self) (clean_d (mgroup m 2)) = Some [START_CHAR + n]"
proof -
  have "clean_d (mgroup m 2) \<in> set (shapes text)"
    using assms(2,3) by (auto simp: set_shapes canonical_payloads_def payload_def)
  then obtain n where n: "n < length (shapes text)" "shapes text ! n = clean_d (mgroup m 2)"
    by (auto simp: in_set_conv_nth)
  then show ?thesis
    using registry_lookup[OF assms(1) n(1)] by (auto simp: assigned_def)
qed

lemma registry_empty_miss:
  assumes "load_and_extract init (Some text) = Inr self"
  shows "dict_get (drawing_to_char self) [] = None"
  using registry_miss[OF assms, of "[]"] by (simp add: set_shapes)

lemma one_entry:
  "distinct (map fst d) \<Longrightarrow> k \<in> set (map fst d) \<Longrightarrow> length (filter (\<lambda>kv. fst kv = k) d) = 1"
proof (induction d)
  case Nil
  then show ?case by simp
next
  case (Cons p d)
  show ?case
  proof (cases "fst p = k")
    case True
    then have "k \<notin> set (map fst d)" using Cons.prems(1) by auto
    then have "filter (\<lambda>kv. fst kv = k) d = []" by (auto simp: filter_empty_conv)
    then show ?thesis using True by simp
  next
    case False
    then show ?thesis using Cons by auto
  qed
qed

subsection \<open>Canonical payloads\<close>

lemma py_split_Nil: "py_split [] = []"
  by (subst py_split.simps) simp

lemma py_split_Cons:
  "py_split (c # s) =
     (if py_isspace c then py_split s
      else (c # takeWhile (\<lambda>c. \<not> py_isspace c) s) # py_split (dropWhile (\<lambda>c. \<not> py_isspace c) s))"
  by (subst py_split.simps, subst (2) py_split.simps) (simp add: Let_def)

lemma py_split_words: "list_all word_ok (py_split s)"
proof (induction s rule: py_split.induct)
  case (1 s)
  show ?case
  proof (cases "dropWhile py_isspace s = []")
    case True
    then show ?thesis by (subst py_split.simps) simp
  next
    case False
    then have nsp: "\<not> py_isspace (hd (dropWhile py_isspace s))"
      by (rule hd_dropWhile)
    have "takeWhile (\<lambda>c. \<not> py_isspace c) (dropWhile py_isspace s) \<noteq> []"
      using False nsp by (cases "dropWhile py_isspace s") auto
    moreover have "list_all (\<lambda>c. \<not> py_isspace c) (takeWhile (\<lambda>c. \<not> py_isspace c) (dropWhile py_isspace s))"
      by (auto simp: list_all_iff dest: set_takeWhileD)
    ultimately have "word_ok (takeWhile (\<lambda>c. \<not> py_isspace c) (dropWhile py_isspace s))"
      by (simp add: word_ok_def)
    then show ?thesis
      using False 1 by (subst py_split.simps) (simp add: Let_def)
  qed
qed

lemma py_strip_id:
  assumes "s \<noteq> []" "\<not> py_isspace (hd s)" "\<not> py_isspace (last s)"
  shows "py_strip s = s"
proof -
  have "dropWhile py_isspace s = s"
    using assms by (cases s) auto
  moreover have "dropWhile py_isspace (rev s) = rev s"
    using assms by (cases "rev s") (auto simp: last_rev hd_rev)
  ultimately show ?thesis by (simp add: py_strip_def)
qed

lemma py_join_ends:
  assumes "ws \<noteq> []" "list_all word_ok ws"
  shows "py_join sep ws \<noteq> [] \<and> hd (py_join sep ws) = hd (hd ws) \<and> last (py_join sep ws) = last (last ws)"
  using assms
proof (induction sep ws rule: py_join.induct)
  case (1 sep)
  then show ?case by simp
next
  case (2 sep x)
  then show ?case by (simp add: word_ok_def)
next
  case (3 sep x y ys)
  then show ?case by (auto simp: word_ok_def)
qed

lemma word_ok_ends: "word_ok w \<Longrightarrow> \<not> py_isspace (hd w) \<and> \<not> py_isspace (last w)"
proof -
  assume ok: "word_ok w"
  then have "w \<noteq> []" and all: "\<forall>c\<in>set w. \<not> py_isspace c"
    by (auto simp: word_ok_def list_all_iff)
  then have "hd w \<in> set w" "last w \<in> set w" by auto
  with all show ?thesis by blast
qed

lemma clean_d_join: "clean_d d = py_join [32] (py_split d)"
proof (cases "py_split d = []")
  case True
  then show ?thesis by (simp add: clean_d_def py_strip_def)
next
  case False
  have ok: "list_all word_ok (py_split d)" by (rule py_split_words)
  have "word_ok (hd (py_split d))" "word_ok (last (py_split d))"
    using False ok by (auto simp: list_all_iff)
  then show ?thesis
    using py_join_ends[OF False ok] word_ok_ends
    by (simp add: clean_d_def py_strip_id)
qed

lemma clean_d_empty_iff: "clean_d d = [] \<longleftrightarrow> py_split d = []"
  using py_join_ends[OF _ py_split_words, of d] by (auto simp: clean_d_join)

lemma clean_d_tokens: "py_split d1 = py_split d2 \<Longrightarrow> clean_d d1 = clean_d d2"
  by (simp add: clean_d_def)

lemma py_strip_decomp:
  "s = takeWhile py_isspace s @ py_strip s @ rev (takeWhile py_isspace (rev (dropWhile py_isspace s)))"
proof -
  let ?t = "dropWhile py_isspace s"
  have "rev ?t = takeWhile py_isspace (rev ?t) @ dropWhile py_isspace (rev ?t)"
    by simp
  then have "?t = rev (dropWhile py_isspace (rev ?t)) @ rev (takeWhile py_isspace (rev ?t))"
    by (metis rev_append rev_rev_ident)
  moreover have "s = takeWhile py_isspace s @ ?t" by simp
  ultimately show ?thesis by (simp add: py_strip_def)
qed

lemma list_all_takeWhile: "list_all P (takeWhile P xs)"
  by (induction xs) auto

subsection \<open>Scanning a text for matches\<close>

text \<open>The scans, one step at a time, and the decomposition of a text into gaps and matches.\<close>

lemma re_findall_Nil: "re_findall pat [] = (case re_match pat [] of None \<Rightarrow> [] | Some (e, m) \<Rightarrow> [m])"
  by (subst re_findall.simps) (auto split: option.splits)

lemma re_findall_Cons:
  "re_findall pat (c # s) =
     (case re_match pat (c # s) of
        None \<Rightarrow> re_findall pat s
      | Some (e, m) \<Rightarrow> m # re_findall pat (drop (e - 1) s))"
  by (subst re_findall.simps) (auto split: option.splits simp: drop_Cons')

lemma re_sub_Nil: "re_sub pat f [] = (case re_match pat [] of None \<Rightarrow> [] | Some (e, m) \<Rightarrow> f m)"
  by (subst re_sub.simps) (auto split: option.splits)

lemma re_sub_Cons:
  "re_sub pat f (c # s) =
     (case re_match pat (c # s) of
        None \<Rightarrow> c # re_sub pat f s
      | Some (e, m) \<Rightarrow> if e = 0 then f m @ c # re_sub pat f s else f m @ re_sub pat f (drop (e - 1) s))"
  by (subst re_sub.simps) (auto split: option.splits simp: drop_Cons')

lemma re_gaps_Nil: "re_gaps pat [] = (case re_match pat [] of None \<Rightarrow> [[]] | Some (e, m) \<Rightarrow> [[], []])"
  by (subst re_gaps.simps) (auto split: option.splits)

lemma re_gaps_Cons:
  "re_gaps pat (c # s) =
     (case re_match pat (c # s) of
        None \<Rightarrow> cons_hd c (re_gaps pat s)
      | Some (e, m) \<Rightarrow> if e = 0 then [] # cons_hd c (re_gaps pat s) else [] # re_gaps pat (drop (e - 1) s))"
  by (subst re_gaps.simps) (auto split: option.splits simp: drop_Cons')

lemma weave_cons_hd: "gs \<noteq> [] \<Longrightarrow> weave (cons_hd c gs) xs = c # weave gs xs"
  by (cases gs; cases xs) auto

lemma length_cons_hd: "length gs = Suc n \<Longrightarrow> length (cons_hd c gs) = Suc n"
  by (cases gs) auto

lemma re_gaps_length: "length (re_gaps pat s) = Suc (length (re_findall pat s))"
proof (induction s rule: length_induct)
  case (1 s)
  show ?case
  proof (cases "re_match pat s")
    case None
    show ?thesis
    proof (cases s)
      case Nil
      then show ?thesis using None by (subst re_gaps.simps, subst re_findall.simps) simp
    next
      case (Cons c s')
      then have "length (re_gaps pat s') = Suc (length (re_findall pat s'))" using 1 by simp
      then show ?thesis using None Cons
        by (subst re_gaps.simps, subst re_findall.simps) (auto simp: length_cons_hd)
    qed
  next
    case (Some em)
    obtain e m where em: "em = (e, m)" by (cases em)
    show ?thesis
    proof (cases "e = 0 \<or> s = []")
      case True
      show ?thesis
      proof (cases s)
        case Nil
        then show ?thesis using Some em by (subst re_gaps.simps, subst re_findall.simps) simp
      next
        case (Cons c s')
        then have "length (re_gaps pat s') = Suc (length (re_findall pat s'))" using 1 by simp
        then show ?thesis using Some em Cons True
          by (subst re_gaps.simps, subst re_findall.simps) (auto simp: length_cons_hd)
      qed
    next
      case False
      then have "length (drop e s) < length s" by simp
      then have "length (re_gaps pat (drop e s)) = Suc (length (re_findall pat (drop e s)))"
        using 1 by blast
      then show ?thesis using Some em False
        by (subst re_gaps.simps, subst re_findall.simps) simp
    qed
  qed
qed

lemma re_gaps_nonempty: "re_gaps pat s \<noteq> []"
  using re_gaps_length[of pat s] by auto

lemma re_sub_weave: "re_sub pat f s = weave (re_gaps pat s) (map f (re_findall pat s))"
proof (induction s rule: length_induct)
  case (1 s)
  show ?case
  proof (cases "re_match pat s")
    case None
    show ?thesis
    proof (cases s)
      case Nil
      then show ?thesis using None
        by (subst re_sub.simps, subst re_gaps.simps, subst re_findall.simps) simp
    next
      case (Cons c s')
      then have "re_sub pat f s' = weave (re_gaps pat s') (map f (re_findall pat s'))" using 1 by simp
      then show ?thesis using None Cons
        by (subst re_sub.simps, subst re_gaps.simps, subst re_findall.simps)
           (simp add: weave_cons_hd re_gaps_nonempty)
    qed
  next
    case (Some em)
    obtain e m where em: "em = (e, m)" by (cases em)
    show ?thesis
    proof (cases "e = 0 \<or> s = []")
      case True
      show ?thesis
      proof (cases s)
        case Nil
        then show ?thesis using Some em
          by (subst re_sub.simps, subst re_gaps.simps, subst re_findall.simps) simp
      next
        case (Cons c s')
        then have "re_sub pat f s' = weave (re_gaps pat s') (map f (re_findall pat s'))" using 1 by simp
        then show ?thesis using Some em Cons True
          by (subst re_sub.simps, subst re_gaps.simps, subst re_findall.simps)
             (simp add: weave_cons_hd re_gaps_nonempty)
      qed
    next
      case False
      then have "length (drop e s) < length s" by simp
      then have "re_sub pat f (drop e s) = weave (re_gaps pat (drop e s)) (map f (re_findall pat (drop e s)))"
        using 1 by blast
      then show ?thesis using Some em False
        by (subst re_sub.simps, subst re_gaps.simps, subst re_findall.simps) simp
    qed
  qed
qed

lemma re_match_group0: "re_match pat s = Some (e, m) \<Longrightarrow> mgroup m 0 = take e s"
  by (auto simp: re_match_def split: option.splits)

lemma re_sub_whole: "re_sub pat (\<lambda>m. mgroup m 0) s = s"
proof (induction s rule: length_induct)
  case (1 s)
  show ?case
  proof (cases "re_match pat s")
    case None
    then show ?thesis using 1 by (subst re_sub.simps) (auto split: list.splits)
  next
    case (Some em)
    obtain e m where em: "em = (e, m)" by (cases em)
    have g0: "mgroup m 0 = take e s" using Some em by (simp add: re_match_group0)
    show ?thesis
    proof (cases "e = 0 \<or> s = []")
      case True
      then have "mgroup m 0 = []" using g0 by auto
      then show ?thesis using Some em True 1
        by (subst re_sub.simps) (auto split: list.splits)
    next
      case False
      then have "length (drop e s) < length s" by simp
      then have "re_sub pat (\<lambda>m. mgroup m 0) (drop e s) = drop e s"
        using 1 by blast
      then show ?thesis using Some em False g0
        by (subst re_sub.simps) simp
    qed
  qed
qed

lemma text_weave: "s = weave (re_gaps pat s) (map (\<lambda>m. mgroup m 0) (re_findall pat s))"
  using re_sub_weave[of pat "\<lambda>m. mgroup m 0" s] by (simp add: re_sub_whole)

lemma findall_matches:
  "m \<in> set (re_findall pat s) \<Longrightarrow> \<exists>t e. re_match pat t = Some (e, m)"
proof (induction s rule: length_induct)
  case (1 s)
  show ?case
  proof (cases "re_match pat s")
    case None
    then have "m \<in> set (case s of [] \<Rightarrow> [] | c # s' \<Rightarrow> re_findall pat s')"
      using 1(2) by (subst (asm) re_findall.simps) simp
    then show ?thesis using 1(1) by (cases s) auto
  next
    case (Some em)
    obtain e m' where em: "em = (e, m')" by (cases em)
    show ?thesis
    proof (cases "m = m'")
      case True
      then show ?thesis using Some em by blast
    next
      case False
      show ?thesis
      proof (cases "e = 0 \<or> s = []")
        case True
        then have "m \<in> set (case s of [] \<Rightarrow> [] | c # s' \<Rightarrow> re_findall pat s')"
          using 1(2) Some em False by (subst (asm) re_findall.simps) auto
        then show ?thesis using 1(1) by (cases s) auto
      next
        case nz: False
        then have "m \<in> set (re_findall pat (drop e s))"
          using 1(2) Some em False by (subst (asm) re_findall.simps) auto
        moreover have "length (drop e s) < length s" using nz by simp
        ultimately show ?thesis using 1(1) by blast
      qed
    qed
  qed
qed

subsection \<open>Matches of the drawing pattern\<close>

text \<open>A match of the drawing pattern consists of its three groups, one behind the other.\<close>

lemma bt_plain:
  assumes "list_all plain A" "bt (A @ r) s pos ops caps = Some res"
  shows "\<exists>n\<le>length s. bt r (drop n s) (pos + n) ops caps = Some res"
  using assms
proof (induction "length A + length s" arbitrary: A s pos rule: less_induct)
  case less
  show ?case
  proof (cases A)
    case Nil
    then show ?thesis using less.prems by (intro exI[of _ 0]) simp
  next
    case (Cons a A')
    then have pl: "list_all plain A'" using less.prems(1) by simp
    have step: "\<exists>n\<le>length s. bt r (drop n s) (pos + n) ops caps = Some res"
      if "s = c # s'" "\<exists>n\<le>length s'. bt r (drop n s') (Suc pos + n) ops caps = Some res" for c s'
    proof -
      from that(2) obtain n where "n \<le> length s'" "bt r (drop n s') (Suc pos + n) ops caps = Some res"
        by blast
      then show ?thesis using that(1) by (intro exI[of _ "Suc n"]) simp
    qed
    show ?thesis
    proof (cases a)
      case (Lit k)
      then obtain c s' where s: "s = c # s'" and b: "bt (A' @ r) s' (Suc pos) ops caps = Some res"
        using less.prems(2) Cons by (cases s) (auto split: if_splits)
      have "\<exists>n\<le>length s'. bt r (drop n s') (Suc pos + n) ops caps = Some res"
        using less.hyps[OF _ pl b] Cons s by simp
      then show ?thesis using step[OF s] by blast
    next
      case (Lazy k)
      show ?thesis
      proof (cases "bt (A' @ r) s pos ops caps")
        case (Some m)
        then have "bt (A' @ r) s pos ops caps = Some res"
          using less.prems(2) Cons Lazy by simp
        then show ?thesis using less.hyps[OF _ pl] Cons by simp
      next
        case None
        then obtain c s' where s: "s = c # s'"
          and b: "bt ((Lazy k # A') @ r) s' (Suc pos) ops caps = Some res"
          using less.prems(2) Cons Lazy by (cases s) (auto split: if_splits)
        have "list_all plain (Lazy k # A')" using pl by simp
        then have "\<exists>n\<le>length s'. bt r (drop n s') (Suc pos + n) ops caps = Some res"
          using less.hyps[OF _ _ b] Cons s by simp
        then show ?thesis using step[OF s] by blast
      qed
    next
      case (Greedy k)
      show ?thesis
      proof (cases s)
        case Nil
        then have "bt (A' @ r) s pos ops caps = Some res"
          using less.prems(2) Cons Greedy by simp
        then show ?thesis using less.hyps[OF _ pl] Cons by simp
      next
        case s: (Cons c s')
        show ?thesis
        proof (cases "cls_match k c \<and> bt ((Greedy k # A') @ r) s' (Suc pos) ops caps \<noteq> None")
          case True
          then have b: "bt ((Greedy k # A') @ r) s' (Suc pos) ops caps = Some res"
            using less.prems(2) Cons Greedy s by auto
          have "list_all plain (Greedy k # A')" using pl by simp
          then have "\<exists>n\<le>length s'. bt r (drop n s') (Suc pos + n) ops caps = Some res"
            using less.hyps[OF _ _ b] Cons s by simp
          then show ?thesis using step[OF s] by blast
        next
          case False
          then have "bt (A' @ r) s pos ops caps = Some res"
            using less.prems(2) Cons Greedy s by (auto split: if_splits option.splits)
          then show ?thesis using less.hyps[OF _ pl] Cons by simp
        qed
      qed
    next
      case Open
      then show ?thesis using less.prems(1) Cons by simp
    next
      case Close
      then show ?thesis using less.prems(1) Cons by simp
    qed
  qed
qed

lemma tag_pattern_split:
  "tag_pattern = Open # [Lit (Ch 123), Lazy (NotCh 125), Lit (Ch 92), Lit (ChIC 112 80), Lit (Range 49 57),
            Greedy (NotCh 125), Lit (Ch 125)] @ Close # Open # [Lazy AnyCh] @ Close # Open
      # [Lit (Ch 123), Lit (Ch 92), Lit (ChIC 112 80), Lit (Ch 48), Lit (Ch 125)] @ [Close]"
  by (simp add: tag_pattern_def)

lemma bt_tag_pattern:
  assumes "bt tag_pattern s 0 [] [] = Some (e, caps)"
  shows "\<exists>n1 n2 n3. e = n1 + n2 + n3 \<and> e \<le> length s
           \<and> caps = [(0, n1), (n1, n1 + n2), (n1 + n2, n1 + n2 + n3)]"
proof -
  let ?A = "[Lit (Ch 123), Lazy (NotCh 125), Lit (Ch 92), Lit (ChIC 112 80), Lit (Range 49 57),
            Greedy (NotCh 125), Lit (Ch 125)]"
  let ?B = "[Lazy AnyCh]"
  let ?C = "[Lit (Ch 123), Lit (Ch 92), Lit (ChIC 112 80), Lit (Ch 48), Lit (Ch 125)]"
  have "bt (?A @ Close # Open # ?B @ Close # Open # ?C @ [Close]) s 0 [0] [] = Some (e, caps)"
    using assms unfolding tag_pattern_split by simp
  then obtain n1 where n1: "n1 \<le> length s"
    and b1: "bt (Close # Open # ?B @ Close # Open # ?C @ [Close]) (drop n1 s) (0 + n1) [0] [] = Some (e, caps)"
    using bt_plain[of ?A] by fastforce
  have "bt (?B @ Close # Open # ?C @ [Close]) (drop n1 s) n1 [n1] [(0, n1)] = Some (e, caps)"
    using b1 by simp
  then obtain n2 where n2: "n2 \<le> length (drop n1 s)"
    and b2: "bt (Close # Open # ?C @ [Close]) (drop n2 (drop n1 s)) (n1 + n2) [n1] [(0, n1)] = Some (e, caps)"
    using bt_plain[of ?B] by fastforce
  have "bt (?C @ [Close]) (drop n2 (drop n1 s)) (n1 + n2) [n1 + n2] [(0, n1), (n1, n1 + n2)] = Some (e, caps)"
    using b2 by simp
  then obtain n3 where n3: "n3 \<le> length (drop n2 (drop n1 s))"
    and b3: "bt [Close] (drop n3 (drop n2 (drop n1 s))) (n1 + n2 + n3) [n1 + n2] [(0, n1), (n1, n1 + n2)] = Some (e, caps)"
    using bt_plain[of ?C] by fastforce
  have "e = n1 + n2 + n3" "caps = [(0, n1), (n1, n1 + n2), (n1 + n2, n1 + n2 + n3)]"
    using b3 by auto
  moreover have "n1 + n2 + n3 \<le> length s" using n1 n2 n3 by simp
  ultimately show ?thesis by blast
qed

lemma tag_match_shape:
  assumes "re_match tag_pattern s = Some (e, m)"
  shows "\<exists>g1 g2 g3. m = (g1 @ g2 @ g3, [g1, g2, g3]) \<and> take e s = g1 @ g2 @ g3"
proof -
  obtain caps where b: "bt tag_pattern s 0 [] [] = Some (e, caps)"
    and m: "m = (take e s, map (\<lambda>(a, b). take (b - a) (drop a s)) caps)"
    using assms by (auto simp: re_match_def split: option.splits)
  from bt_tag_pattern[OF b] obtain n1 n2 n3 where
    e: "e = n1 + n2 + n3" "e \<le> length s" and caps: "caps = [(0, n1), (n1, n1 + n2), (n1 + n2, n1 + n2 + n3)]"
    by blast
  have "take e s = take n1 s @ take n2 (drop n1 s) @ take n3 (drop (n1 + n2) s)"
    unfolding e(1) by (simp add: take_add)
  then show ?thesis using m caps by simp
qed

lemma tag_match_groups:
  assumes "m \<in> set (re_findall tag_pattern s)"
  shows "length (snd m) = 3 \<and> mgroup m 0 = mgroup m 1 @ mgroup m 2 @ mgroup m 3"
proof -
  obtain t e where "re_match tag_pattern t = Some (e, m)"
    using findall_matches[OF assms] by blast
  from tag_match_shape[OF this] obtain g1 g2 g3 where "m = (g1 @ g2 @ g3, [g1, g2, g3])"
    by blast
  then show ?thesis by simp
qed

lemma map_whole_groups:
  "map (\<lambda>m. mgroup m 1 @ mgroup m 2 @ mgroup m 3) (re_findall tag_pattern s)
   = map (\<lambda>m. mgroup m 0) (re_findall tag_pattern s)"
  by (rule map_cong) (simp_all add: tag_match_groups)

subsection \<open>The directive pattern and the resource-section pattern\<close>

lemma bt_literals:
  "bt (map (\<lambda>c. Lit (Ch c)) w @ r) s pos ops caps =
     (if take (length w) s = w then bt r (drop (length w) s) (pos + length w) ops caps else None)"
proof (induction w arbitrary: s pos)
  case Nil
  then show ?case by simp
next
  case (Cons a w)
  show ?case
  proof (cases s)
    case Nil
    then show ?thesis by simp
  next
    case (Cons c s')
    then show ?thesis using Cons.IH[of s' "Suc pos"] by auto
  qed
qed

lemma bt_greedy_any: "bt [Greedy AnyCh] s pos ops caps = Some (pos + length s, caps)"
  by (induction s arbitrary: pos) auto

lemma fonts_pattern_literals: "fonts_pattern = map (\<lambda>c. Lit (Ch c)) fonts_marker @ [Greedy AnyCh]"
  by (simp add: fonts_pattern_def fonts_marker_def)

lemma re_match_fonts:
  "re_match fonts_pattern s = (if take 8 s = fonts_marker then Some (length s, (s, [])) else None)"
proof -
  have len: "length fonts_marker = 8" by (simp add: fonts_marker_def)
  show ?thesis
  proof (cases "take 8 s = fonts_marker")
    case True
    then have "8 \<le> length s" using len by (metis length_take min.cobounded1 min_def nat_le_linear take_all)
    then show ?thesis using True
      unfolding re_match_def fonts_pattern_literals bt_literals bt_greedy_any len
      by simp
  next
    case False
    then show ?thesis
      unfolding re_match_def fonts_pattern_literals bt_literals len by simp
  qed
qed

lemma re_sub_fonts: "re_sub fonts_pattern (\<lambda>_. []) s = cut_fonts s"
proof (induction s)
  case Nil
  then show ?case by (simp add: re_sub_Nil re_match_fonts fonts_marker_def)
next
  case (Cons c s)
  then show ?case
    by (simp add: re_sub_Cons re_match_fonts re_sub_Nil fonts_marker_def del: take_Suc_Cons)
qed

lemma cut_fonts_prefix:
  "\<exists>rest. t = cut_fonts t @ rest \<and> (rest = [] \<or> take 8 rest = fonts_marker)"
proof (induction t)
  case Nil
  then show ?case by simp
next
  case (Cons c t)
  show ?case
  proof (cases "take 8 (c # t) = fonts_marker")
    case True
    then show ?thesis by (intro exI[of _ "c # t"]) simp
  next
    case False
    from Cons obtain rest where "t = cut_fonts t @ rest" "rest = [] \<or> take 8 rest = fonts_marker"
      by blast
    then show ?thesis using False by (intro exI[of _ rest]) simp
  qed
qed

lemma re_match_p19:
  "re_match p19_pattern s =
     (case s of
        a # b # c # r \<Rightarrow>
          if a = 92 \<and> (b = 112 \<or> b = 80) \<and> 49 \<le> c \<and> c \<le> 57 then Some (3, ([a, b, c], [])) else None
      | _ \<Rightarrow> None)"
  by (auto simp: re_match_def p19_pattern_def split: list.splits)

lemma re_sub_p19: "re_sub p19_pattern (\<lambda>_. directive_repl) s = replace_directive s"
proof (induction s rule: replace_directive.induct)
  case (1 a b c s)
  show ?case
  proof (cases "a = 92 \<and> (b = 112 \<or> b = 80) \<and> 49 \<le> c \<and> c \<le> 57")
    case True
    then show ?thesis using 1(1)
      by (subst re_sub_Cons) (simp add: re_match_p19)
  next
    case False
    have "re_match p19_pattern (a # b # c # s) = None"
      using False by (simp add: re_match_p19)
    then have "re_sub p19_pattern (\<lambda>_. directive_repl) (a # b # c # s)
               = a # re_sub p19_pattern (\<lambda>_. directive_repl) (b # c # s)"
      by (subst re_sub_Cons) simp
    then show ?thesis using 1(2)[OF False] False by auto
  qed
qed (simp_all add: re_sub_Cons re_sub_Nil re_match_p19)

lemma replace_callback_hit:
  "dict_get (drawing_to_char self) (clean_d (mgroup m 2)) = Some char \<Longrightarrow> char \<noteq> []
   \<Longrightarrow> replace_callback self m = replace_directive (mgroup m 1) @ char"
  by (simp add: replace_callback_def Let_def re_sub_p19)

lemma replace_callback_miss:
  "dict_get (drawing_to_char self) (clean_d (mgroup m 2)) = None \<Longrightarrow> replace_callback self m = mgroup m 0"
  by (simp add: replace_callback_def Let_def)

lemma rewrite_ass_weave:
  "rewrite_ass self ttf_data
   = py_strip (cut_fonts (weave (re_gaps tag_pattern (content self))
                                (map (replace_callback self) (re_findall tag_pattern (content self)))))
     @ wrap_loop (ass_uuencode ttf_data) 0 font_header"
  by (simp add: rewrite_ass_def Let_def re_sub_fonts re_sub_weave[of tag_pattern])

subsection \<open>A document with any number of distinct shapes\<close>

lemma bt_lazy_first: "bt r s pos ops caps = Some m \<Longrightarrow> bt (Lazy k # r) s pos ops caps = Some m"
  by simp

lemma bt_lazy_any_skip:
  "bt (Lazy AnyCh # Close # Open # Lit (Ch 123) # r) (replicate k 109 @ t) pos (st # ops) caps
   = bt (Lazy AnyCh # Close # Open # Lit (Ch 123) # r) t (pos + k) (st # ops) caps"
proof (induction k arbitrary: pos)
  case 0
  then show ?case by simp
next
  case (Suc k)
  have "bt (Lazy AnyCh # Close # Open # Lit (Ch 123) # r) (replicate (Suc k) 109 @ t) pos (st # ops) caps
        = bt (Lazy AnyCh # Close # Open # Lit (Ch 123) # r) (replicate k 109 @ t) (Suc pos) (st # ops) caps"
    by (subst bt.simps(4)) (simp del: bt.simps(4))
  then show ?case using Suc[of "Suc pos"] by simp
qed

lemma length_open_p1: "length open_p1 = 5"
  by (simp add: open_p1_def)

lemma length_close_p0: "length close_p0 = 5"
  by (simp add: close_p0_def)

lemma bt_blk:
  "bt tag_pattern (blk n @ rest) 0 [] []
   = Some (n + 11, [(0, 5), (5, n + 6), (n + 6, n + 11)])"
proof -
  let ?tail = "[Close, Open, Lit (Ch 123), Lit (Ch 92), Lit (ChIC 112 80), Lit (Ch 48), Lit (Ch 125), Close]"
  let ?r1 = "[Lit (Ch 92), Lit (ChIC 112 80), Lit (Range 49 57), Greedy (NotCh 125), Lit (Ch 125), Close, Open, Lazy AnyCh] @ ?tail"
  let ?u = "replicate (Suc n) 109 @ close_p0 @ rest"
  let ?five = "Suc (Suc (Suc (Suc (Suc 0))))"
  have "bt (Lazy AnyCh # ?tail) ?u ?five [?five] [(0, ?five)]
        = bt (Lazy AnyCh # ?tail) (close_p0 @ rest) (?five + Suc n) [?five] [(0, ?five)]"
    by (rule bt_lazy_any_skip)
  also have "\<dots> = Some (n + 11, [(0, 5), (5, n + 6), (n + 6, n + 11)])"
    by (simp add: close_p0_def)
  finally have A: "bt (Lazy AnyCh # ?tail) ?u ?five [?five] [(0, ?five)]
                   = Some (n + 11, [(0, 5), (5, n + 6), (n + 6, n + 11)])" .
  have B: "bt ?r1 ([92, 112, 49, 125] @ ?u) (Suc 0) [0] [] = bt (Lazy AnyCh # ?tail) ?u ?five [?five] [(0, ?five)]"
    by (simp del: bt.simps(4) replicate_Suc)
  have C: "bt (Lazy (NotCh 125) # ?r1) ([92, 112, 49, 125] @ ?u) (Suc 0) [0] []
           = Some (n + 11, [(0, 5), (5, n + 6), (n + 6, n + 11)])"
    by (rule bt_lazy_first) (simp only: A B)
  have "bt tag_pattern (blk n @ rest) 0 [] [] = bt (Lazy (NotCh 125) # ?r1) ([92, 112, 49, 125] @ ?u) (Suc 0) [0] []"
    by (simp add: tag_pattern_def blk_def open_p1_def del: bt.simps(4) replicate_Suc)
  then show ?thesis using C by simp
qed

lemma length_blk: "length (blk n) = n + 11"
  by (simp add: blk_def open_p1_def close_p0_def)

lemma blk_nonempty: "blk n \<noteq> []"
  by (simp add: blk_def open_p1_def)

lemma re_match_blk:
  "re_match tag_pattern (blk n @ rest) = Some (n + 11, (blk n, [open_p1, replicate (Suc n) 109, close_p0]))"
proof -
  have "take (n + 11) (blk n @ rest) = blk n"
    by (simp add: length_blk)
  moreover have "take 5 (blk n @ rest) = open_p1"
    by (simp add: blk_def length_open_p1)
  moreover have "take (n + 6 - 5) (drop 5 (blk n @ rest)) = replicate (Suc n) 109"
    by (simp add: blk_def length_open_p1 del: replicate_Suc)
  moreover have "take (n + 11 - (n + 6)) (drop (n + 6) (blk n @ rest)) = close_p0"
    by (simp add: blk_def length_open_p1 length_close_p0 del: replicate_Suc)
  ultimately show ?thesis
    by (simp add: re_match_def bt_blk)
qed



lemma clean_d_ms: "clean_d (replicate (Suc n) 109) = replicate (Suc n) 109"
proof -
  have ns: "\<not> py_isspace 109" by (simp add: py_isspace_def)
  have "dropWhile py_isspace (109 # replicate n 109) = 109 # replicate n 109"
    using ns by simp
  moreover have "takeWhile (\<lambda>c. \<not> py_isspace c) (replicate n 109) = replicate n 109"
    using ns by (induction n) auto
  moreover have "dropWhile (\<lambda>c. \<not> py_isspace c) (replicate n 109) = []"
    using ns by (induction n) auto
  ultimately have "py_split (replicate (Suc n) 109) = [replicate (Suc n) 109]"
    using ns by (simp add: py_split_Cons py_split_Nil)
  then show ?thesis by (simp add: clean_d_join)
qed




subsection \<open>The rewriter on a document with any number of distinct shapes\<close>


lemma replace_directive_open_p1: "replace_directive open_p1 = tag_repl"
  by (simp add: open_p1_def tag_repl_def)

lemma callback_many:
  assumes "n < k"
  shows "replace_callback (reg_many k) (blk n, [open_p1, replicate (Suc n) 109, close_p0])
         = tag_repl @ assigned n"
proof -
  let ?ks = "map (\<lambda>n. replicate (Suc n) (109::nat)) [0..<k]"
  have d: "distinct ?ks"
    by (simp add: distinct_map inj_on_def del: replicate_Suc)
  have "dict_get (zip ?ks (map assigned [0..<length ?ks])) (?ks ! n) = Some (assigned n)"
    using assms by (intro dict_get_zip d) simp
  then have "dict_get (drawing_to_char (reg_many k)) (clean_d (replicate (Suc n) 109)) = Some (assigned n)"
    using assms by (simp add: reg_many_def clean_d_ms del: replicate_Suc)
  then show ?thesis
    using replace_callback_hit[of "reg_many k" "(blk n, [open_p1, replicate (Suc n) 109, close_p0])" "assigned n"]
    by (simp add: replace_directive_open_p1 assigned_def del: replicate_Suc)
qed

lemma re_sub_blk:
  "re_sub tag_pattern f (blk n @ rest)
   = f (blk n, [open_p1, replicate (Suc n) 109, close_p0]) @ re_sub tag_pattern f rest"
  by (subst re_sub.simps) (simp add: re_match_blk blk_nonempty length_blk)

lemma re_sub_many:
  "a + j \<le> k \<Longrightarrow> re_sub tag_pattern (replace_callback (reg_many k)) (many_blocks a j) = replaced_blocks a j"
proof (induction j arbitrary: a)
  case 0
  then show ?case
    by (simp add: many_blocks_def replaced_blocks_def re_sub_Nil re_match_def tag_pattern_def)
next
  case (Suc j)
  have m: "many_blocks a (Suc j) = blk a @ many_blocks (Suc a) j"
    by (simp add: many_blocks_def upt_conv_Cons del: upt_Suc)
  have r: "replaced_blocks a (Suc j) = (tag_repl @ assigned a) @ replaced_blocks (Suc a) j"
    by (simp add: replaced_blocks_def upt_conv_Cons del: upt_Suc)
  have "a < k" using Suc.prems by simp
  then show ?case
    using Suc.IH[of "Suc a"] Suc.prems
    by (simp add: m r re_sub_blk callback_many del: replicate_Suc)
qed

lemma cut_fonts_id: "10 \<notin> set t \<Longrightarrow> cut_fonts t = t"
  by (induction t) (auto simp: fonts_marker_def)

lemma replaced_blocks_snoc:
  "replaced_blocks a (Suc j) = replaced_blocks a j @ tag_repl @ [START_CHAR + (a + j)]"
  by (simp add: replaced_blocks_def assigned_def)

lemma replaced_blocks_no_lf: "10 \<notin> set (replaced_blocks a j)"
proof (induction j)
  case 0
  then show ?case by (simp add: replaced_blocks_def)
next
  case (Suc j)
  have "10 \<notin> set tag_repl"
    by (simp add: tag_repl_def directive_repl_def FONT_NAME_def)
  then show ?case using Suc
    by (simp add: replaced_blocks_snoc START_CHAR_def)
qed

lemma replaced_blocks_ends:
  "replaced_blocks a j @ tag_repl \<noteq> []"
  "hd (replaced_blocks a j @ tag_repl) = 123"
  "last (replaced_blocks a j @ tag_repl) = 125"
proof -
  show "replaced_blocks a j @ tag_repl \<noteq> []" by (simp add: tag_repl_def)
  show "last (replaced_blocks a j @ tag_repl) = 125" by (simp add: tag_repl_def)
  show "hd (replaced_blocks a j @ tag_repl) = 123"
  proof (cases j)
    case 0
    then show ?thesis by (simp add: replaced_blocks_def tag_repl_def)
  next
    case (Suc i)
    then show ?thesis
      by (simp add: replaced_blocks_def upt_conv_Cons tag_repl_def del: upt_Suc)
  qed
qed

lemma py_strip_snoc:
  assumes "x \<noteq> []" "\<not> py_isspace (hd x)" "\<not> py_isspace (last x)"
  shows "py_strip (x @ [c]) = (if py_isspace c then x else x @ [c])"
proof (cases "py_isspace c")
  case False
  then show ?thesis using assms by (simp add: py_strip_id)
next
  case True
  have a: "dropWhile py_isspace (x @ [c]) = x @ [c]"
    using assms by (cases x) auto
  have b: "dropWhile py_isspace (rev x) = rev x"
    using assms by (cases "rev x") (auto simp: last_rev hd_rev)
  show ?thesis using True by (simp add: py_strip_def a b)
qed

lemma wrap_loop_empty: "wrap_loop [] 0 font_block = font_block"
  by (simp add: wrap_loop.simps)

lemma rewrite_many:
  "rewrite_ass (reg_many (Suc j)) ttf_data
   = replaced_blocks 0 j @ tag_repl @ (if py_isspace (START_CHAR + j) then [] else [START_CHAR + j])
     @ wrap_loop (ass_uuencode ttf_data) 0 font_header"
proof -
  have c: "content (reg_many (Suc j)) = many_blocks 0 (Suc j)"
    by (simp add: reg_many_def)
  have s: "re_sub tag_pattern (replace_callback (reg_many (Suc j))) (many_blocks 0 (Suc j))
           = replaced_blocks 0 (Suc j)"
    by (rule re_sub_many) simp
  have cut: "cut_fonts (replaced_blocks 0 (Suc j)) = replaced_blocks 0 (Suc j)"
    by (rule cut_fonts_id) (rule replaced_blocks_no_lf)
  have ns: "\<not> py_isspace 123" "\<not> py_isspace 125"
    by (simp_all add: py_isspace_def)
  have "py_strip ((replaced_blocks 0 j @ tag_repl) @ [START_CHAR + j])
        = (if py_isspace (START_CHAR + j) then replaced_blocks 0 j @ tag_repl
           else (replaced_blocks 0 j @ tag_repl) @ [START_CHAR + j])"
    by (rule py_strip_snoc) (simp_all only: replaced_blocks_ends ns not_False_eq_True)
  then have "py_strip (replaced_blocks 0 (Suc j))
        = replaced_blocks 0 j @ tag_repl @ (if py_isspace (START_CHAR + j) then [] else [START_CHAR + j])"
    by (simp add: replaced_blocks_snoc)
  then show ?thesis
    unfolding rewrite_ass_def Let_def c s re_sub_fonts cut by simp
qed




lemma rewrite_37:
  "rewrite_ass (reg_many 37) [] = replaced_blocks 0 36 @ tag_repl @ font_header"
proof -
  have "rewrite_ass (reg_many (Suc 36)) [] = replaced_blocks 0 36 @ tag_repl @ font_header"
    by (simp only: rewrite_many) (simp add: START_CHAR_def py_isspace_def enc_nil wrap_loop_empty)
  moreover have "Suc 36 = 37" by simp
  ultimately show ?thesis by (simp only:)
qed


subsection \<open>The example documents, evaluated\<close>

lemmas eval_rules = re_findall_Nil re_findall_Cons re_sub_Nil re_sub_Cons py_split_Nil py_split_Cons
  re_match_def tag_pattern_def p19_pattern_def fonts_pattern_def
  clean_d_def py_isspace_def py_strip_def
  load_and_extract_def init_def pychr_def ord_def START_CHAR_def dict_get_def Let_def
  replace_callback_def rewrite_ass_def run_def write_file_def encodable_def directive_repl_def
  FONT_NAME_def font_header_def

lemmas doc_defs = doc_empty_first_def doc_blank_def doc_blanks_def doc_lead_def doc_twice_def
  doc_mixed_def square_def open_p1_def close_p0_def

lemma findall_doc_mixed:
  "re_findall tag_pattern doc_mixed =
     [([123, 92, 97, 110, 55, 92, 80, 49, 125, 109, 32, 48, 123, 92, 112, 48, 125],
       [[123, 92, 97, 110, 55, 92, 80, 49, 125], [109, 32, 48], [123, 92, 112, 48, 125]]),
      ([123, 92, 112, 50, 125, 123, 92, 112, 48, 125],
       [[123, 92, 112, 50, 125], [], [123, 92, 112, 48, 125]]),
      ([123, 92, 112, 49, 125, 32, 32, 109, 10, 48, 32, 123, 92, 112, 48, 125],
       [[123, 92, 112, 49, 125], [32, 32, 109, 10, 48, 32], [123, 92, 112, 48, 125]]),
      ([123, 92, 112, 51, 125, 108, 123, 92, 112, 48, 125],
       [[123, 92, 112, 51, 125], [108], [123, 92, 112, 48, 125]])]"
  by (simp add: eval_rules doc_defs)

lemma extract_doc_mixed: "load_and_extract init (Some doc_mixed) = Inr reg_mixed"
  by (simp add: eval_rules doc_defs reg_mixed_def)

lemma shapes_doc_mixed: "shapes doc_mixed = [[109, 32, 48], [108]]"
  by (simp add: shapes_def canonical_payloads_def payload_def findall_doc_mixed clean_d_def py_split_Nil py_split_Cons py_isspace_def py_strip_def)

lemma in_doc_mixed:
  "m_first \<in> set (re_findall tag_pattern doc_mixed)"
  "m_second \<in> set (re_findall tag_pattern doc_mixed)"
  "m_third \<in> set (re_findall tag_pattern doc_mixed)"
  by (simp_all add: findall_doc_mixed m_first_def m_second_def m_third_def)

lemma clean_d_examples:
  "clean_d (mgroup m_first 2) = [109, 32, 48]"
  "clean_d (mgroup m_second 2) = []"
  "clean_d (mgroup m_third 2) = [109, 32, 48]"
  by (simp_all add: m_first_def m_second_def m_third_def clean_d_def py_split_Nil py_split_Cons
      py_isspace_def py_strip_def)

lemma py_split_examples:
  "py_split (mgroup m_first 2) = [[109], [48]]"
  "py_split (mgroup m_third 2) = [[109], [48]]"
  by (simp_all add: m_first_def m_third_def py_split_Nil py_split_Cons py_isspace_def)

lemma rewrite_doc_mixed:
  "re_sub tag_pattern (replace_callback reg_mixed) (content reg_mixed)
   = [123, 92, 97, 110, 55, 92, 102, 110] @ FONT_NAME @ [92, 112, 48, 125, 97] @ [120]
     @ [123, 92, 112, 50, 125, 123, 92, 112, 48, 125]
     @ [123, 92, 102, 110] @ FONT_NAME @ [92, 112, 48, 125, 97]
     @ [123, 92, 102, 110] @ FONT_NAME @ [92, 112, 48, 125, 98]"
  by (simp add: reg_mixed_def eval_rules doc_defs)

lemma extract_doc_empty_first:
  "load_and_extract init (Some doc_empty_first)
   = Inr \<lparr>drawing_to_char = [([109], [97])], drawings = [[109]], content = doc_empty_first\<rparr>"
  by (simp add: eval_rules doc_defs)

lemma findall_doc_empty_first:
  "re_findall tag_pattern doc_empty_first =
     [(open_p1 @ close_p0, [open_p1, [], close_p0]),
      (open_p1 @ [109] @ close_p0, [open_p1, [109], close_p0])]"
  by (simp add: eval_rules doc_defs)

lemma payloads_doc_empty_first: "canonical_payloads doc_empty_first = [[], [109]]"
  by (simp add: canonical_payloads_def payload_def findall_doc_empty_first clean_d_def
      py_split_Nil py_split_Cons py_isspace_def py_strip_def)

lemma extract_doc_blank:
  "load_and_extract init (Some doc_blank) = Inr \<lparr>drawing_to_char = [], drawings = [], content = doc_blank\<rparr>"
  by (simp add: eval_rules doc_defs)

lemma findall_doc_blank:
  "re_findall tag_pattern doc_blank = [(open_p1 @ [32] @ close_p0, [open_p1, [32], close_p0])]"
  by (simp add: eval_rules doc_defs)

lemma extract_doc_blanks:
  "load_and_extract init (Some doc_blanks) = Inr \<lparr>drawing_to_char = [], drawings = [], content = doc_blanks\<rparr>"
  by (simp add: eval_rules doc_defs)

lemma findall_doc_blanks:
  "re_findall tag_pattern doc_blanks
   = [(open_p1 @ [32] @ close_p0, [open_p1, [32], close_p0]), (open_p1 @ close_p0, [open_p1, [], close_p0])]"
  by (simp add: eval_rules doc_defs)

lemma extract_doc_twice:
  "load_and_extract init (Some doc_twice)
   = Inr \<lparr>drawing_to_char = [(square, [97])], drawings = [square], content = doc_twice\<rparr>"
  by (simp add: eval_rules doc_defs)

lemma run_doc_twice:
  "run (\<lambda>d. Inr [0x41, 0x42]) (Some doc_twice)
   = \<lparr>raised = None,
      output_file = Some ([123, 92, 102, 110] @ FONT_NAME @ [92, 112, 48, 125, 97]
                          @ [123, 92, 102, 110] @ FONT_NAME @ [92, 112, 48, 125, 97]
                          @ font_header @ [49, 53, 41, 10])\<rparr>"
  by (simp add: eval_rules doc_defs ass_uuencode_spec pack24_def uu_symbol_def wrap_loop.simps)

lemma findall_doc_lead:
  "re_findall tag_pattern doc_lead = [(open_p1 @ [109] @ close_p0, [open_p1, [109], close_p0])]"
  by (simp add: eval_rules doc_defs)

lemma gaps_doc_lead: "re_gaps tag_pattern doc_lead = [[32], [10]]"
  by (simp add: re_gaps_Nil re_gaps_Cons eval_rules doc_defs)

lemma run_doc_lead:
  "run (\<lambda>d. Inr [0x41, 0x42]) (Some doc_lead)
   = \<lparr>raised = None,
      output_file = Some ([123, 92, 102, 110] @ FONT_NAME @ [92, 112, 48, 125, 97]
                          @ font_header @ [49, 53, 41, 10])\<rparr>"
  by (simp add: eval_rules doc_defs ass_uuencode_spec pack24_def uu_symbol_def wrap_loop.simps)

lemma findall_doc_behind:
  "re_findall tag_pattern doc_behind
   = [(open_p1 @ [109] @ close_p0, [open_p1, [109], close_p0]),
      (open_p1 @ [108] @ close_p0, [open_p1, [108], close_p0])]"
  by (simp add: eval_rules doc_defs doc_behind_def fonts_marker_def)

lemma extract_doc_behind: "load_and_extract init (Some doc_behind) = Inr reg_behind"
  by (simp add: eval_rules doc_defs doc_behind_def fonts_marker_def reg_behind_def)

lemma sub_doc_behind:
  "re_sub tag_pattern (replace_callback reg_behind) (content reg_behind)
   = tag_repl @ [97] @ fonts_marker @ [10] @ tag_repl @ [98]"
  by (simp add: reg_behind_def eval_rules doc_defs doc_behind_def fonts_marker_def tag_repl_def)

lemma rewrite_doc_behind:
  "rewrite_ass reg_behind [0x41, 0x42] = tag_repl @ [97] @ font_header @ [49, 53, 41, 10]"
  by (simp add: reg_behind_def eval_rules doc_defs doc_behind_def fonts_marker_def tag_repl_def
      ass_uuencode_spec pack24_def uu_symbol_def wrap_loop.simps)

lemma run_doc_behind:
  "run (\<lambda>d. Inr [0x41, 0x42]) (Some doc_behind)
   = \<lparr>raised = None, output_file = Some (tag_repl @ [97] @ font_header @ [49, 53, 41, 10])\<rparr>"
  by (simp add: run_def extract_doc_behind rewrite_doc_behind)
     (simp add: reg_behind_def write_file_def encodable_def tag_repl_def directive_repl_def
        FONT_NAME_def font_header_def)


section \<open>Claims about the pipeline\<close>

text \<open>
  Claim C2, as stated, fails.  In the document that consists of a space, the block
  \<^verbatim>\<open>{\p1}m{\p0}\<close> and a line feed, the text outside the block is the space before it and
  the line feed behind it, and there is no resource section.  The output begins with the
  rewritten block: the space is gone (and so is the line feed, before the new resource
  section is appended).
\<close>

theorem C2_counterexample:
  "re_findall tag_pattern doc_lead = [(open_p1 @ [109] @ close_p0, [open_p1, [109], close_p0])]
   \<and> re_gaps tag_pattern doc_lead = [[32], [10]]
   \<and> cut_fonts doc_lead = doc_lead
   \<and> run (\<lambda>d. Inr [0x41, 0x42]) (Some doc_lead)
       = \<lparr>raised = None,
          output_file = Some ([123, 92, 102, 110] @ FONT_NAME @ [92, 112, 48, 125, 97]
                              @ font_header @ [49, 53, 41, 10])\<rparr>"
  by (simp add: findall_doc_lead gaps_doc_lead run_doc_lead) (simp add: doc_defs fonts_marker_def)

text \<open>
  Claim C2, amended.  The rewriter keeps the text between the matched blocks as it is:
  the input is the gaps woven with the blocks, and the substituted text is the same gaps
  woven with the replacements.  Of that text the output keeps the part before the first
  \<^verbatim>\<open>\n[Fonts]\<close> (the resource section runs from there to the end), with the whitespace at
  its beginning and at its end removed, and the new resource section follows.  Cutting
  removes only the resource section and stripping removes only whitespace at the two ends.
\<close>

theorem C2_pass_through:
  "rewrite_ass self ttf_data
     = py_strip (cut_fonts (weave (re_gaps tag_pattern (content self))
                                  (map (replace_callback self) (re_findall tag_pattern (content self)))))
       @ wrap_loop (ass_uuencode ttf_data) 0 font_header
   \<and> content self
     = weave (re_gaps tag_pattern (content self))
             (map (\<lambda>m. mgroup m 0) (re_findall tag_pattern (content self)))
   \<and> length (re_gaps tag_pattern (content self)) = Suc (length (re_findall tag_pattern (content self)))
   \<and> (\<exists>rest. t = cut_fonts t @ rest \<and> (rest = [] \<or> take 8 rest = fonts_marker))
   \<and> (\<exists>lead trail. t = lead @ py_strip t @ trail \<and> list_all py_isspace lead \<and> list_all py_isspace trail)"
proof -
  have "\<exists>lead trail. t = lead @ py_strip t @ trail \<and> list_all py_isspace lead \<and> list_all py_isspace trail"
  proof (intro exI conjI)
    show "t = takeWhile py_isspace t @ py_strip t @ rev (takeWhile py_isspace (rev (dropWhile py_isspace t)))"
      by (rule py_strip_decomp)
    show "list_all py_isspace (takeWhile py_isspace t)" by (rule list_all_takeWhile)
    show "list_all py_isspace (rev (takeWhile py_isspace (rev (dropWhile py_isspace t))))"
      using list_all_takeWhile[of py_isspace "rev (dropWhile py_isspace t)"] by (simp add: list_all_iff)
  qed
  then show ?thesis
    apply (intro conjI)
        apply (rule rewrite_ass_weave)
       apply (rule text_weave)
      apply (rule re_gaps_length)
     apply (rule cut_fonts_prefix)
    apply assumption
    done
qed

text \<open>
  Claim C3, as stated, fails.  In \<^verbatim>\<open>{\p1}{\p0}{\p1}m{\p0}\<close> the distinct canonical shapes
  are, in first-occurrence order, the empty string and \<open>m\<close>.  The registry has no
  character for the first, and gives the second the character \<open>a\<close>, not \<open>b\<close>.
\<close>

theorem C3_counterexample:
  "first_occ (canonical_payloads doc_empty_first) = [[], [109]]
   \<and> load_and_extract init (Some doc_empty_first)
       = Inr \<lparr>drawing_to_char = [([109], [97])], drawings = [[109]], content = doc_empty_first\<rparr>
   \<and> dict_get [([109], [97])] ([[], [109]] ! 0) = None
   \<and> dict_get [([109], [97])] ([[], [109]] ! 1) = Some (assigned 0)
   \<and> assigned 0 \<noteq> assigned 1"
  by (simp add: payloads_doc_empty_first extract_doc_empty_first dict_get_def assigned_def START_CHAR_def)

text \<open>
  Claim C3, amended.  When the extraction pass succeeds, the registry lists the distinct
  canonical shapes that are not empty, in first-occurrence order, and gives the \<open>n\<close>-th
  of them (from 0) the character of code point \<open>ord('a') + n\<close>: every such shape has
  exactly one character, no two shapes share a character, and the empty canonical shape
  has none.  What \<open>run\<close> does after the scan reads this registry and makes no new
  one: the font generation and the rewriter take it as it is.
\<close>

theorem C3_registry:
  assumes "load_and_extract init (Some text) = Inr self"
  shows "drawing_to_char self = zip (shapes text) (map assigned [0..<length (shapes text)])
     \<and> (\<forall>n<length (shapes text).
            dict_get (drawing_to_char self) (shapes text ! n) = Some [START_CHAR + n])
     \<and> map fst (drawing_to_char self) = shapes text
     \<and> distinct (map fst (drawing_to_char self))
     \<and> distinct (map snd (drawing_to_char self))
     \<and> set (map fst (drawing_to_char self)) = set (canonical_payloads text) - {[]}
     \<and> dict_get (drawing_to_char self) [] = None
     \<and> drawings self = shapes text
     \<and> run create_subset_ttf (Some text)
         = (if drawings self = [] then \<lparr>raised = None, output_file = None\<rparr>
            else (case create_subset_ttf (drawing_to_char self) of
                    Inl e \<Rightarrow> \<lparr>raised = Some e, output_file = None\<rparr>
                  | Inr ttf_data \<Rightarrow> write_file (rewrite_ass self ttf_data)))"
proof -
  have r: "run create_subset_ttf (Some text)
         = (if drawings self = [] then \<lparr>raised = None, output_file = None\<rparr>
            else (case create_subset_ttf (drawing_to_char self) of
                    Inl e \<Rightarrow> \<lparr>raised = Some e, output_file = None\<rparr>
                  | Inr ttf_data \<Rightarrow> write_file (rewrite_ass self ttf_data)))"
    using assms by (simp add: run_def)
  have "\<forall>n<length (shapes text). dict_get (drawing_to_char self) (shapes text ! n) = Some [START_CHAR + n]"
    using registry_lookup[OF assms] by (simp add: assigned_def)
  moreover have "dict_get (drawing_to_char self) [] = None"
    using registry_miss[OF assms, of "[]"] by (simp add: set_shapes)
  ultimately show ?thesis
    using load_and_extract_Inr[OF assms] registry_keys[OF assms] registry_values_distinct[OF assms]
      distinct_shapes[of "text"] set_shapes[of "text"] r
    by simp
qed

theorem C3_registry_witness:
  "drawing_to_char reg_mixed = zip (shapes doc_mixed) (map assigned [0..<length (shapes doc_mixed)])
   \<and> shapes doc_mixed = [[109, 32, 48], [108]]
   \<and> dict_get (drawing_to_char reg_mixed) [109, 32, 48] = Some [97]
   \<and> dict_get (drawing_to_char reg_mixed) [108] = Some [98]
   \<and> dict_get (drawing_to_char reg_mixed) [] = None"
proof -
  have "drawing_to_char reg_mixed = zip (shapes doc_mixed) (map assigned [0..<length (shapes doc_mixed)])"
    using C3_registry[OF extract_doc_mixed] by (rule conjunct1)
  then show ?thesis
    by (simp add: shapes_doc_mixed reg_mixed_def dict_get_def)
qed

text \<open>
  Claim C4, as stated, fails.  The two payloads of \<^verbatim>\<open>{\p1} {\p0}{\p1}{\p0}\<close>, a space and
  the empty string, differ only in whitespace: both have the empty token sequence.  They
  map to the same canonical shape, but neither receives a character: the registry is
  empty and \<open>run\<close> returns without rewriting anything.
\<close>

theorem C4_counterexample:
  "re_findall tag_pattern doc_blanks
     = [(open_p1 @ [32] @ close_p0, [open_p1, [32], close_p0]), (open_p1 @ close_p0, [open_p1, [], close_p0])]
   \<and> py_split [32] = py_split []
   \<and> clean_d [32] = clean_d []
   \<and> load_and_extract init (Some doc_blanks)
       = Inr \<lparr>drawing_to_char = [], drawings = [], content = doc_blanks\<rparr>
   \<and> dict_get [] (clean_d [32]) = None
   \<and> dict_get [] (clean_d []) = None
   \<and> run (\<lambda>d. Inr []) (Some doc_blanks) = \<lparr>raised = None, output_file = None\<rparr>"
  by (simp add: findall_doc_blanks extract_doc_blanks dict_get_def run_def clean_d_def
      py_split_Nil py_split_Cons py_isspace_def)

text \<open>
  Claim C4, amended.  After a successful extraction pass, two matched blocks whose
  payloads have the same token sequence, a sequence that is not empty, have the same
  canonical shape; the registry has exactly one entry for it, a single character, and the
  rewriter replaces both blocks by their rewritten start tag followed by that character.
\<close>

theorem C4_same_character:
  assumes "load_and_extract init (Some text) = Inr self"
    and "m1 \<in> set (re_findall tag_pattern text)"
    and "m2 \<in> set (re_findall tag_pattern text)"
    and "py_split (mgroup m1 2) = py_split (mgroup m2 2)"
    and "py_split (mgroup m1 2) \<noteq> []"
  shows "clean_d (mgroup m1 2) = clean_d (mgroup m2 2)
       \<and> length (filter (\<lambda>kv. fst kv = clean_d (mgroup m1 2)) (drawing_to_char self)) = 1
       \<and> (\<exists>ch. dict_get (drawing_to_char self) (clean_d (mgroup m1 2)) = Some [ch]
              \<and> dict_get (drawing_to_char self) (clean_d (mgroup m2 2)) = Some [ch]
              \<and> replace_callback self m1 = replace_directive (mgroup m1 1) @ [ch]
              \<and> replace_callback self m2 = replace_directive (mgroup m2 1) @ [ch])"
proof -
  have eq: "clean_d (mgroup m1 2) = clean_d (mgroup m2 2)"
    using assms(4) by (rule clean_d_tokens)
  have ne: "clean_d (mgroup m1 2) \<noteq> []"
    using assms(5) by (simp add: clean_d_empty_iff)
  obtain n where n: "n < length (shapes text)" "shapes text ! n = clean_d (mgroup m1 2)"
    "dict_get (drawing_to_char self) (clean_d (mgroup m1 2)) = Some [START_CHAR + n]"
    using registry_hit[OF assms(1,2) ne] by blast
  have "clean_d (mgroup m1 2) \<in> set (map fst (drawing_to_char self))"
    using n(1,2) registry_keys[OF assms(1)] by (metis nth_mem)
  moreover have "distinct (map fst (drawing_to_char self))"
    using registry_keys[OF assms(1)] distinct_shapes[of "text"] by simp
  ultimately have one: "length (filter (\<lambda>kv. fst kv = clean_d (mgroup m1 2)) (drawing_to_char self)) = 1"
    by (intro one_entry)
  have "replace_callback self m1 = replace_directive (mgroup m1 1) @ [START_CHAR + n]"
    using replace_callback_hit[OF n(3)] by simp
  moreover have "replace_callback self m2 = replace_directive (mgroup m2 1) @ [START_CHAR + n]"
    using replace_callback_hit[of self m2 "[START_CHAR + n]"] n(3) eq by simp
  ultimately show ?thesis using eq one n(3) by auto
qed

theorem C4_same_character_witness:
  "mgroup m_first 2 = [109, 32, 48]
   \<and> mgroup m_third 2 = [32, 32, 109, 10, 48, 32]
   \<and> clean_d (mgroup m_first 2) = clean_d (mgroup m_third 2)
   \<and> length (filter (\<lambda>kv. fst kv = clean_d (mgroup m_first 2)) (drawing_to_char reg_mixed)) = 1
   \<and> replace_callback reg_mixed m_first = replace_directive (mgroup m_first 1) @ [97]
   \<and> replace_callback reg_mixed m_third = replace_directive (mgroup m_third 1) @ [97]
   \<and> load_and_extract init (Some doc_twice)
       = Inr \<lparr>drawing_to_char = [(square, [97])], drawings = [square], content = doc_twice\<rparr>
   \<and> run (\<lambda>d. Inr [0x41, 0x42]) (Some doc_twice)
       = \<lparr>raised = None,
          output_file = Some ([123, 92, 102, 110] @ FONT_NAME @ [92, 112, 48, 125, 97]
                              @ [123, 92, 102, 110] @ FONT_NAME @ [92, 112, 48, 125, 97]
                              @ font_header @ [49, 53, 41, 10])\<rparr>"
proof -
  have tok: "py_split (mgroup m_first 2) = py_split (mgroup m_third 2)" "py_split (mgroup m_first 2) \<noteq> []"
    by (simp_all add: py_split_examples)
  note th = C4_same_character[OF extract_doc_mixed in_doc_mixed(1) in_doc_mixed(3) tok]
  have g: "mgroup m_first 2 = [109, 32, 48]" "mgroup m_third 2 = [32, 32, 109, 10, 48, 32]"
    by (simp_all add: m_first_def m_third_def)
  have e: "clean_d (mgroup m_first 2) = clean_d (mgroup m_third 2)"
    using th by (rule conjunct1)
  have l: "length (filter (\<lambda>kv. fst kv = clean_d (mgroup m_first 2)) (drawing_to_char reg_mixed)) = 1"
    using th by blast
  have "dict_get (drawing_to_char reg_mixed) (clean_d (mgroup m_first 2)) = Some [97]"
    by (simp add: clean_d_examples reg_mixed_def dict_get_def)
  then have r: "replace_callback reg_mixed m_first = replace_directive (mgroup m_first 1) @ [97]"
    "replace_callback reg_mixed m_third = replace_directive (mgroup m_third 1) @ [97]"
    using th by auto
  show ?thesis
    apply (intro conjI)
           apply (rule g(1))
          apply (rule g(2))
         apply (rule e)
        apply (rule l)
       apply (rule r(1))
      apply (rule r(2))
     apply (rule extract_doc_twice)
    apply (rule run_doc_twice)
    done
qed




text \<open>
  Claim C6, as stated, fails.  In \<^verbatim>\<open>{\p1}m{\p0}\n[Fonts]\n{\p1}l{\p0}\<close> (\<^verbatim>\<open>\n\<close> a line
  feed) the scan matches two blocks and the registry gives the second shape, \<open>l\<close>, the
  character \<open>b\<close>.  The substitution puts the rewritten start tag and \<open>b\<close> in its place,
  but the rewriter then removes everything from \<^verbatim>\<open>\n[Fonts]\<close> on: its output has the
  first block and the new resource section, and nothing of the second block.
\<close>

theorem C6_counterexample:
  "re_findall tag_pattern doc_behind
     = [(open_p1 @ [109] @ close_p0, [open_p1, [109], close_p0]),
        (open_p1 @ [108] @ close_p0, [open_p1, [108], close_p0])]
   \<and> load_and_extract init (Some doc_behind) = Inr reg_behind
   \<and> dict_get (drawing_to_char reg_behind) (clean_d [108]) = Some [98]
   \<and> re_sub tag_pattern (replace_callback reg_behind) (content reg_behind)
       = tag_repl @ [97] @ fonts_marker @ [10] @ tag_repl @ [98]
   \<and> rewrite_ass reg_behind [0x41, 0x42] = tag_repl @ [97] @ font_header @ [49, 53, 41, 10]
   \<and> run (\<lambda>d. Inr [0x41, 0x42]) (Some doc_behind)
       = \<lparr>raised = None, output_file = Some (tag_repl @ [97] @ font_header @ [49, 53, 41, 10])\<rparr>"
proof -
  have "dict_get (drawing_to_char reg_behind) (clean_d [108]) = Some [98]"
    by (simp add: reg_behind_def clean_d_def py_split_Nil py_split_Cons py_isspace_def py_strip_def
        dict_get_def)
  then show ?thesis
    by (simp only: findall_doc_behind extract_doc_behind sub_doc_behind rewrite_doc_behind
        run_doc_behind simp_thms)
qed

text \<open>
  Claim C6, amended.  The rewriter first substitutes: the text between the matched blocks
  stays, and where a block (start tag, payload, end tag) stood comes the value of the
  callback.  For a block whose canonical payload has a character in the registry, that
  value is the start tag in which every directive \<^verbatim>\<open>\p1\<close> ... \<^verbatim>\<open>\p9\<close> (in either case
  of the letter) is replaced by \<^verbatim>\<open>\fnASSDrawSubset\p0\<close>, followed at once by the
  character; for a block without a registry entry it is the block itself, and the
  substitution goes on with the blocks that follow.  The output of the rewriter is the
  substituted text up to the first \<^verbatim>\<open>\n[Fonts]\<close>, without the whitespace at its two ends,
  and then the new resource section: blocks behind a \<^verbatim>\<open>\n[Fonts]\<close> go with the old
  section, and when nothing is cut and the substituted text neither begins nor ends with
  whitespace, the output is the whole substituted text and the new section.
\<close>

theorem C6_block_replacement:
  "rewrite_ass self ttf_data
     = py_strip (cut_fonts (re_sub tag_pattern (replace_callback self) (content self)))
       @ wrap_loop (ass_uuencode ttf_data) 0 font_header
   \<and> re_sub tag_pattern (replace_callback self) (content self)
     = weave (re_gaps tag_pattern (content self))
             (map (replace_callback self) (re_findall tag_pattern (content self)))
   \<and> content self
     = weave (re_gaps tag_pattern (content self))
             (map (\<lambda>m. mgroup m 1 @ mgroup m 2 @ mgroup m 3) (re_findall tag_pattern (content self)))
   \<and> (\<forall>m\<in>set (re_findall tag_pattern (content self)).
         (\<forall>char. dict_get (drawing_to_char self) (clean_d (mgroup m 2)) = Some char \<and> char \<noteq> []
              \<longrightarrow> replace_callback self m = replace_directive (mgroup m 1) @ char)
       \<and> (dict_get (drawing_to_char self) (clean_d (mgroup m 2)) = None
              \<longrightarrow> replace_callback self m = mgroup m 1 @ mgroup m 2 @ mgroup m 3))
   \<and> (T = re_sub tag_pattern (replace_callback self) (content self)
        \<and> cut_fonts T = T \<and> T \<noteq> [] \<and> \<not> py_isspace (hd T) \<and> \<not> py_isspace (last T)
        \<longrightarrow> rewrite_ass self ttf_data = T @ wrap_loop (ass_uuencode ttf_data) 0 font_header)
   \<and> re_sub p19_pattern (\<lambda>_. directive_repl) start_tag = replace_directive start_tag
   \<and> directive_repl = [92, 102, 110] @ FONT_NAME @ [92, 112, 48]"
proof -
  have o: "rewrite_ass self ttf_data
     = py_strip (cut_fonts (re_sub tag_pattern (replace_callback self) (content self)))
       @ wrap_loop (ass_uuencode ttf_data) 0 font_header"
    by (simp add: rewrite_ass_def Let_def re_sub_fonts)
  have a: "re_sub tag_pattern (replace_callback self) (content self)
     = weave (re_gaps tag_pattern (content self))
             (map (replace_callback self) (re_findall tag_pattern (content self)))"
    by (rule re_sub_weave)
  have b: "content self
     = weave (re_gaps tag_pattern (content self))
             (map (\<lambda>m. mgroup m 1 @ mgroup m 2 @ mgroup m 3) (re_findall tag_pattern (content self)))"
    unfolding map_whole_groups by (rule text_weave)
  have c: "\<forall>m\<in>set (re_findall tag_pattern (content self)).
         (\<forall>char. dict_get (drawing_to_char self) (clean_d (mgroup m 2)) = Some char \<and> char \<noteq> []
              \<longrightarrow> replace_callback self m = replace_directive (mgroup m 1) @ char)
       \<and> (dict_get (drawing_to_char self) (clean_d (mgroup m 2)) = None
              \<longrightarrow> replace_callback self m = mgroup m 1 @ mgroup m 2 @ mgroup m 3)"
    using replace_callback_hit replace_callback_miss tag_match_groups by auto
  have w: "T = re_sub tag_pattern (replace_callback self) (content self)
        \<and> cut_fonts T = T \<and> T \<noteq> [] \<and> \<not> py_isspace (hd T) \<and> \<not> py_isspace (last T)
        \<longrightarrow> rewrite_ass self ttf_data = T @ wrap_loop (ass_uuencode ttf_data) 0 font_header"
  proof
    assume h: "T = re_sub tag_pattern (replace_callback self) (content self)
        \<and> cut_fonts T = T \<and> T \<noteq> [] \<and> \<not> py_isspace (hd T) \<and> \<not> py_isspace (last T)"
    then have t: "re_sub tag_pattern (replace_callback self) (content self) = T"
      and cut: "cut_fonts T = T"
      and ends: "T \<noteq> []" "\<not> py_isspace (hd T)" "\<not> py_isspace (last T)"
      by blast+
    have "py_strip T = T"
      using ends by (rule py_strip_id)
    then show "rewrite_ass self ttf_data = T @ wrap_loop (ass_uuencode ttf_data) 0 font_header"
      by (simp only: o t cut)
  qed
  have d: "re_sub p19_pattern (\<lambda>_. directive_repl) start_tag = replace_directive start_tag"
    by (rule re_sub_p19)
  have e: "directive_repl = [92, 102, 110] @ FONT_NAME @ [92, 112, 48]"
    by (rule directive_repl_def)
  show ?thesis
    apply (intro conjI)
          apply (rule o)
         apply (rule a)
        apply (rule b)
       apply (rule c)
      apply (rule w)
     apply (rule d)
    apply (rule e)
    done
qed

theorem C6_block_replacement_witness:
  "replace_callback reg_mixed m_first
     = [123, 92, 97, 110, 55, 92, 102, 110] @ FONT_NAME @ [92, 112, 48, 125] @ [97]
   \<and> replace_callback reg_mixed m_second = [123, 92, 112, 50, 125, 123, 92, 112, 48, 125]
   \<and> rewrite_ass reg_mixed [0x41, 0x42]
     = [123, 92, 97, 110, 55, 92, 102, 110] @ FONT_NAME @ [92, 112, 48, 125, 97] @ [120]
       @ [123, 92, 112, 50, 125, 123, 92, 112, 48, 125]
       @ [123, 92, 102, 110] @ FONT_NAME @ [92, 112, 48, 125, 97]
       @ [123, 92, 102, 110] @ FONT_NAME @ [92, 112, 48, 125, 98]
       @ font_header @ [49, 53, 41, 10]"
proof -
  define T where "T = [123, 92, 97, 110, 55, 92, 102, 110] @ FONT_NAME @ [92, 112, 48, 125, 97] @ [120]
       @ [123, 92, 112, 50, 125, 123, 92, 112, 48, 125]
       @ [123, 92, 102, 110] @ FONT_NAME @ [92, 112, 48, 125, 97]
       @ [123, 92, 102, 110] @ FONT_NAME @ [92, 112, 48, 125, (98::nat)]"
  have c: "content reg_mixed = doc_mixed" by (simp add: reg_mixed_def)
  note th = C6_block_replacement[of reg_mixed "[0x41, 0x42]" T]
  have hit: "dict_get (drawing_to_char reg_mixed) (clean_d (mgroup m_first 2)) = Some [97] \<and> [97::nat] \<noteq> []"
    by (simp add: clean_d_examples reg_mixed_def dict_get_def)
  have miss: "dict_get (drawing_to_char reg_mixed) (clean_d (mgroup m_second 2)) = None"
    by (simp add: clean_d_examples reg_mixed_def dict_get_def)
  have "replace_callback reg_mixed m_first = replace_directive (mgroup m_first 1) @ [97]"
    using th hit in_doc_mixed(1) unfolding c by blast
  moreover have "replace_directive (mgroup m_first 1)
                 = [123, 92, 97, 110, 55, 92, 102, 110] @ FONT_NAME @ [92, 112, 48, 125]"
    by (simp add: m_first_def directive_repl_def)
  moreover have "replace_callback reg_mixed m_second = mgroup m_second 1 @ mgroup m_second 2 @ mgroup m_second 3"
    using th miss in_doc_mixed(2) unfolding c by blast
  moreover have "mgroup m_second 1 @ mgroup m_second 2 @ mgroup m_second 3
                 = [123, 92, 112, 50, 125, 123, 92, 112, 48, 125]"
    by (simp add: m_second_def)
  moreover have "rewrite_ass reg_mixed [0x41, 0x42] = T @ font_header @ [49, 53, 41, 10]"
  proof -
    have t: "T = re_sub tag_pattern (replace_callback reg_mixed) (content reg_mixed)"
      by (simp only: rewrite_doc_mixed T_def)
    have "cut_fonts T = T" "T \<noteq> []" "\<not> py_isspace (hd T)" "\<not> py_isspace (last T)"
      by (simp_all add: T_def FONT_NAME_def fonts_marker_def py_isspace_def)
    moreover have "wrap_loop (ass_uuencode [0x41, 0x42]) 0 font_header = font_header @ [49, 53, 41, 10]"
      by (simp add: ass_uuencode_spec pack24_def uu_symbol_def wrap_loop.simps pychr_def)
    ultimately show ?thesis
      using th[THEN conjunct2, THEN conjunct2, THEN conjunct2, THEN conjunct2, THEN conjunct1] t
      by (simp only: simp_thms)
  qed
  ultimately show ?thesis by (simp add: T_def)
qed

text \<open>
  Claim C9, as stated, fails.  The scan matches the block of \<^verbatim>\<open>{\p1} {\p0}\<close>, whose
  payload is a space; the loop does not register it, the registry stays empty, the
  canonical form of the payload has no character, and \<open>run\<close> returns without writing.
\<close>

theorem C9_counterexample:
  "re_findall tag_pattern doc_blank = [(open_p1 @ [32] @ close_p0, [open_p1, [32], close_p0])]
   \<and> load_and_extract init (Some doc_blank)
       = Inr \<lparr>drawing_to_char = [], drawings = [], content = doc_blank\<rparr>
   \<and> dict_get [] (clean_d [32]) = None
   \<and> run (\<lambda>d. Inr []) (Some doc_blank) = \<lparr>raised = None, output_file = None\<rparr>"
  by (simp add: findall_doc_blank extract_doc_blank dict_get_def run_def)

text \<open>
  Claim C9, amended.  After a successful scan, the canonical form of the payload of every
  matched block has an assigned character in the registry when it is not empty; a block
  whose payload is empty or whitespace only is not registered, and its canonical form
  (the empty string) has no character.
\<close>

theorem C9_registered:
  assumes "load_and_extract init (Some text) = Inr self"
    and "m \<in> set (re_findall tag_pattern text)"
  shows "(clean_d (mgroup m 2) \<noteq> [] \<longrightarrow>
            (\<exists>n<length (shapes text).
               dict_get (drawing_to_char self) (clean_d (mgroup m 2)) = Some [START_CHAR + n]))
       \<and> (clean_d (mgroup m 2) = [] \<longrightarrow>
            dict_get (drawing_to_char self) (clean_d (mgroup m 2)) = None)"
  using registry_hit[OF assms] registry_empty_miss[OF assms(1)] by auto

theorem C9_registered_witness:
  "clean_d (mgroup m_third 2) = [109, 32, 48]
   \<and> dict_get (drawing_to_char reg_mixed) (clean_d (mgroup m_third 2)) = Some [97]
   \<and> clean_d (mgroup m_second 2) = []
   \<and> dict_get (drawing_to_char reg_mixed) (clean_d (mgroup m_second 2)) = None"
proof -
  have "dict_get (drawing_to_char reg_mixed) (clean_d (mgroup m_second 2)) = None"
    using C9_registered[OF extract_doc_mixed in_doc_mixed(2)] by (simp add: clean_d_examples)
  moreover have "\<exists>n<length (shapes doc_mixed).
      dict_get (drawing_to_char reg_mixed) (clean_d (mgroup m_third 2)) = Some [START_CHAR + n]"
    using C9_registered[OF extract_doc_mixed in_doc_mixed(3)] by (simp add: clean_d_examples)
  moreover have "dict_get (drawing_to_char reg_mixed) [109, 32, 48] = Some [97]"
    by (simp add: reg_mixed_def dict_get_def)
  ultimately show ?thesis by (simp add: clean_d_examples)
qed

text \<open>
  Claim C10.  When the rewriter runs on the text from which the extraction pass built the
  registry, the callback is called on exactly the blocks that the extraction scan matched;
  for a block whose canonical payload is not empty the lookup finds a one-character string
  and the block is replaced; the lookup fails, and the block is left as it is, exactly
  when the canonical payload is the empty string.
\<close>

theorem C10_lookup_succeeds:
  assumes "load_and_extract init (Some text) = Inr self"
    and "m \<in> set (re_findall tag_pattern text)"
  shows "content self = text
       \<and> re_sub tag_pattern (replace_callback self) (content self)
           = weave (re_gaps tag_pattern text) (map (replace_callback self) (re_findall tag_pattern text))
       \<and> (clean_d (mgroup m 2) \<noteq> [] \<longrightarrow>
            (\<exists>ch. dict_get (drawing_to_char self) (clean_d (mgroup m 2)) = Some [ch]
                \<and> replace_callback self m = re_sub p19_pattern (\<lambda>_. directive_repl) (mgroup m 1) @ [ch]))
       \<and> ((dict_get (drawing_to_char self) (clean_d (mgroup m 2)) = None
            \<or> dict_get (drawing_to_char self) (clean_d (mgroup m 2)) = Some [])
           = (clean_d (mgroup m 2) = []))
       \<and> (clean_d (mgroup m 2) = [] \<longrightarrow> replace_callback self m = mgroup m 0)"
proof -
  have c: "content self = text" using load_and_extract_Inr(4)[OF assms(1)] .
  have w: "re_sub tag_pattern (replace_callback self) (content self)
           = weave (re_gaps tag_pattern text) (map (replace_callback self) (re_findall tag_pattern text))"
    unfolding c by (rule re_sub_weave)
  show ?thesis
  proof (cases "clean_d (mgroup m 2) = []")
    case True
    then have "dict_get (drawing_to_char self) (clean_d (mgroup m 2)) = None"
      using registry_empty_miss[OF assms(1)] by simp
    then show ?thesis
      using True c w replace_callback_miss[of self m] by simp
  next
    case False
    obtain n where n: "dict_get (drawing_to_char self) (clean_d (mgroup m 2)) = Some [START_CHAR + n]"
      using registry_hit[OF assms False] by blast
    have "replace_callback self m
          = re_sub p19_pattern (\<lambda>_. directive_repl) (mgroup m 1) @ [START_CHAR + n]"
      using replace_callback_hit[OF n] by (simp add: re_sub_p19)
    then show ?thesis
      using False c w n by simp
  qed
qed

theorem C10_lookup_succeeds_witness:
  "replace_callback reg_mixed m_first
     = [123, 92, 97, 110, 55, 92, 102, 110] @ FONT_NAME @ [92, 112, 48, 125, 97]
   \<and> dict_get (drawing_to_char reg_mixed) (clean_d (mgroup m_first 2)) = Some [97]
   \<and> replace_callback reg_mixed m_second = mgroup m_second 0
   \<and> dict_get (drawing_to_char reg_mixed) (clean_d (mgroup m_second 2)) = None"
proof -
  have "replace_callback reg_mixed m_second = mgroup m_second 0"
    using C10_lookup_succeeds[OF extract_doc_mixed in_doc_mixed(2)] by (simp add: clean_d_examples)
  moreover have "dict_get (drawing_to_char reg_mixed) (clean_d (mgroup m_second 2)) = None"
    by (simp add: clean_d_examples reg_mixed_def dict_get_def)
  moreover have "\<exists>ch. dict_get (drawing_to_char reg_mixed) (clean_d (mgroup m_first 2)) = Some [ch]
      \<and> replace_callback reg_mixed m_first = re_sub p19_pattern (\<lambda>_. directive_repl) (mgroup m_first 1) @ [ch]"
    using C10_lookup_succeeds[OF extract_doc_mixed in_doc_mixed(1)] by (simp add: clean_d_examples)
  moreover have "dict_get (drawing_to_char reg_mixed) [109, 32, 48] = Some [97]"
    by (simp add: reg_mixed_def dict_get_def)
  moreover have "re_sub p19_pattern (\<lambda>_. directive_repl) (mgroup m_first 1)
     = [123, 92, 97, 110, 55, 92, 102, 110] @ FONT_NAME @ [92, 112, 48, 125]"
    by (subst re_sub_p19) (simp add: m_first_def directive_repl_def)
  ultimately show ?thesis by (auto simp add: clean_d_examples)
qed

end
